theory Spec2Isabelle
  imports Main "HOL-Library.Char_ord" "HOL-Library.List_Lexorder"
begin

section \<open>The log and its records\<close>

text \<open>
  The index is a copy-on-write B-tree whose nodes live inside the entries of an
  append-only log (the \<open>feed\<close>).  Keys and values are byte strings (a \<open>Buffer\<close>); \<open>string\<close>
  is a list of 8-bit characters.
\<close>

definition MAX_CHILDREN :: nat where
  "MAX_CHILDREN = 3"

text \<open>\<open>class Key\<close>: a sequence number and the key bytes once they have been resolved
  (\<open>None\<close> is the \<open>null\<close> of an unresolved slot).\<close>

datatype Key = Key (kseq: nat) (kvalue: "string option")

text \<open>
  Modelled from the spec: the two messages of \<open>./messages\<close> (\<open>YoloIndex\<close> and \<open>Node\<close>),
  which are not part of the sources.  A \<open>YoloIndex\<close> is a list of levels, each with the
  sequence numbers of its keys and its children; the wire format flattens each child to
  two consecutive varints \<open>seq, offset\<close>, which \<open>deflate\<close> writes and \<open>inflate\<close> reads back
  in pairs, so a level carries the list of pairs.  A \<open>Node\<close> has the key bytes, the
  optional value bytes and the encoded index.  The codec preserves shape and order, so an
  encoded message is represented by the message itself.
\<close>

record Level =
  lkeys :: "nat list"
  lchildren :: "(nat \<times> nat) list"

record NodeMsg =
  nkey :: string
  nvalue :: "string option"
  nindex :: "Level list"

text \<open>What an entry of the feed holds: the literal \<open>'header'\<close> written by \<open>ready\<close>, or an
  encoded \<open>Node\<close> written by \<open>Batch.append\<close>.\<close>

datatype payload = HeaderLit | NodeBytes NodeMsg

text \<open>
  The errors an operation can end with.  \<open>IoError\<close>: a read of the feed beyond its
  length.  \<open>Corrupt\<close>: an entry that does not decode as a \<open>Node\<close>.  \<open>TypeError\<close>: a property
  access on \<open>undefined\<close> or \<open>null\<close>.  \<open>NullCompare\<close>: \<open>cmp\<close> called with the \<open>null\<close> of an
  unresolved key, whose result under the coercions of \<open><\<close> is not modelled.
  \<open>Diverged\<close>: a loop over tree nodes that has not returned within its fuel.
\<close>

datatype error = IoError | Corrupt | TypeError | NullCompare | Diverged

text \<open>The object a \<open>BlockEntry\<close> keeps in its \<open>tree\<close> field: the \<open>BTree\<close> or a \<open>Batch\<close>.\<close>

datatype owner = TheTree | TheBatch

text \<open>\<open>class BlockEntry\<close>.  The index is inflated from \<open>indexBuffer\<close> on demand; inflating is
  a pure function of the buffer, so the cached \<open>index\<close> field is not kept.\<close>

record BlockEntry =
  bseq :: nat
  btree :: owner
  indexBuffer :: "Level list"
  bkey :: string
  bvalue :: "string option"

text \<open>The \<open>block\<close> field of a \<open>TreeNode\<close>: a \<open>BlockEntry\<close>, except for the right half made by
  \<open>split\<close>, which is created with \<open>this.block.tree\<close> in that place.\<close>

datatype blockref = Block BlockEntry | NotABlock

text \<open>\<open>class TreeNode\<close> and \<open>class Child\<close>.  A child slot caches the node it resolves to.\<close>

datatype TreeNode = TreeNode (block: blockref) (keys: "Key list") (children: "Child list") (changed: bool)
  and Child = Child (cseq: nat) (coffset: nat) (cvalue: "TreeNode option")

text \<open>
  The state an operation runs in: the feed, the trace of the sequence numbers read from
  the feed (one element per \<open>feed.get\<close>), and the block cache of the operation's \<open>Batch\<close>
  (a JavaScript \<open>Map\<close>, kept as an association list).
\<close>

record state =
  feed :: "payload list"
  reads :: "nat list"
  blocks :: "(nat \<times> BlockEntry) list"

type_synonym 'a io = "state \<Rightarrow> (error + 'a) \<times> state"

definition returnM :: "'a \<Rightarrow> 'a io" where
  "returnM x = (\<lambda>s. (Inr x, s))"

definition throwM :: "error \<Rightarrow> 'a io" where
  "throwM e = (\<lambda>s. (Inl e, s))"

definition bindM :: "'a io \<Rightarrow> ('a \<Rightarrow> 'b io) \<Rightarrow> 'b io" where
  "bindM m f = (\<lambda>s. case m s of (Inl e, s') \<Rightarrow> (Inl e, s') | (Inr x, s') \<Rightarrow> f x s')"

definition liftE :: "error + 'a \<Rightarrow> 'a io" where
  "liftE r = (case r of Inl e \<Rightarrow> throwM e | Inr x \<Rightarrow> returnM x)"

definition feed_length :: "nat io" where
  "feed_length = (\<lambda>s. (Inr (length (feed s)), s))"

definition feed_append :: "payload \<Rightarrow> unit io" where
  "feed_append p = (\<lambda>s. (Inr (), s\<lparr>feed := feed s @ [p]\<rparr>))"

section \<open>Codec helpers\<close>

text \<open>
  \<open>cmp\<close> applies the \<open><\<close> of JavaScript to two keys.  A key is a \<open>Buffer\<close>, an object, so \<open><\<close>
  first converts it to a primitive value: \<open>valueOf\<close> returns the object itself and
  \<open>toString\<close> is called, which decodes the bytes as UTF-8 into a JavaScript string, a
  sequence of UTF-16 code units.  Two strings are then compared code unit by code unit,
  a proper prefix being the smaller one.

  \<open>utf8 cp n lo hi bytes\<close> is the UTF-8 decoder of the platform (the WHATWG decoder, which
  \<open>Buffer.prototype.toString\<close> follows): \<open>n\<close> continuation bytes are still needed for the
  code point collected in \<open>cp\<close>, and the next one has to lie between \<open>lo\<close> and \<open>hi\<close>.  A
  byte that cannot start or continue a sequence ends the sequence with one U+FFFD, and
  is then read again as the start of the next one; so does the end of the input inside a
  sequence.  \<open>utf16\<close> gives the code units of a code point, a surrogate pair above
  U+FFFF.  Bytes, code points and code units are integers.

  A key that the caller gives as a JavaScript string stands for its UTF-8 bytes: \<open>put\<close>
  converts it with \<open>Buffer.from\<close>, and \<open>get\<close> hands it to \<open>cmp\<close> as it is, where a well-formed
  string is the string of its own bytes.
\<close>

fun utf8 :: "int \<Rightarrow> nat \<Rightarrow> int \<Rightarrow> int \<Rightarrow> int list \<Rightarrow> int list" where
  "utf8 cp n lo hi [] = (if n = 0 then [] else [0xFFFD])"
| "utf8 cp n lo hi (b # bs) =
     (if n = 0 then
        (if b < 0x80 then b # utf8 0 0 0x80 0xBF bs
         else if 0xC2 \<le> b \<and> b \<le> 0xDF then utf8 (b mod 0x20) 1 0x80 0xBF bs
         else if 0xE0 \<le> b \<and> b \<le> 0xEF then
           utf8 (b mod 0x10) 2 (if b = 0xE0 then 0xA0 else 0x80) (if b = 0xED then 0x9F else 0xBF) bs
         else if 0xF0 \<le> b \<and> b \<le> 0xF4 then
           utf8 (b mod 8) 3 (if b = 0xF0 then 0x90 else 0x80) (if b = 0xF4 then 0x8F else 0xBF) bs
         else 0xFFFD # utf8 0 0 0x80 0xBF bs)
      else if b < lo \<or> hi < b then 0xFFFD # utf8 0 0 0x80 0xBF (b # bs)
      else if n = 1 then (cp * 0x40 + b mod 0x40) # utf8 0 0 0x80 0xBF bs
      else utf8 (cp * 0x40 + b mod 0x40) (n - 1) 0x80 0xBF bs)"

definition utf16 :: "int \<Rightarrow> int list" where
  "utf16 cp = (if cp < 0x10000 then [cp]
               else [0xD800 + (cp - 0x10000) div 0x400, 0xDC00 + (cp - 0x10000) mod 0x400])"

definition toString :: "string \<Rightarrow> int list" where
  "toString buf = concat (map utf16 (utf8 0 0 0x80 0xBF (map of_char buf)))"

text \<open>\<open>function cmp (a, b)\<close>; \<open><\<close> on the two strings is the lexicographic order of
  \<open>HOL-Library.List_Lexorder\<close> on lists of code units.\<close>

definition cmp :: "string \<Rightarrow> string \<Rightarrow> int" where
  "cmp a b = (if toString a < toString b then - 1 else if toString b < toString a then 1 else 0)"

definition inflate :: "Level list \<Rightarrow> (Key list \<times> Child list) list" where
  "inflate buf =
     map (\<lambda>l. (map (\<lambda>q. Key q None) (lkeys l),
                map (\<lambda>(q, off). Child q off None) (lchildren l))) buf"

definition deflate :: "(Key list \<times> Child list) list \<Rightarrow> Level list" where
  "deflate index =
     map (\<lambda>(ks, cs). \<lparr>lkeys = map kseq ks, lchildren = map (\<lambda>c. (cseq c, coffset c)) cs\<rparr>) index"

section \<open>Block entries and the tree facade\<close>

definition getTreeNode :: "BlockEntry \<Rightarrow> nat \<Rightarrow> error + TreeNode" where
  "getTreeNode b offset =
     (let index = inflate (indexBuffer b)
      in if offset < length index
         then (case index ! offset of (ks, cs) \<Rightarrow> Inr (TreeNode (Block b) ks cs False))
         else Inl TypeError)"

text \<open>\<open>BTree.ready\<close>: the header is appended unless \<open>feed.length > 1\<close>.\<close>

definition ready :: "unit io" where
  "ready = bindM feed_length (\<lambda>n. if n > 1 then returnM () else feed_append HeaderLit)"

text \<open>\<open>BTree.getBlock(seq, batch)\<close>: one read of the feed, decoded as a \<open>Node\<close>.
  Modelled from the spec: the literal header does not decode as a \<open>Node\<close> (\<open>Corrupt\<close>), and
  a read at or beyond the length of the feed fails (\<open>IoError\<close>).\<close>

definition BTree_getBlock :: "nat \<Rightarrow> owner \<Rightarrow> BlockEntry io" where
  "BTree_getBlock seq batch = (\<lambda>s.
     let s' = s\<lparr>reads := reads s @ [seq]\<rparr>
     in if seq < length (feed s)
        then (case feed s ! seq of
                HeaderLit \<Rightarrow> (Inl Corrupt, s')
              | NodeBytes m \<Rightarrow>
                  (Inr \<lparr>bseq = seq, btree = batch, indexBuffer = nindex m,
                        bkey = nkey m, bvalue = nvalue m\<rparr>, s'))
        else (Inl IoError, s'))"

text \<open>\<open>BTree.getRoot(batch = this)\<close>: the parameter \<open>batch\<close> is not used by the body, which
  calls \<open>this.getBlock(this.feed.length - 1, this)\<close>.\<close>

definition BTree_getRoot :: "TreeNode option io" where
  "BTree_getRoot =
     bindM ready (\<lambda>_.
     bindM feed_length (\<lambda>n.
       if n < 2 then returnM None
       else bindM (BTree_getBlock (n - 1) TheTree) (\<lambda>b.
            bindM (liftE (getTreeNode b 0)) (\<lambda>node. returnM (Some node)))))"

text \<open>\<open>Batch.getBlock\<close>: served from the cache when present, else loaded and stored.\<close>

definition Batch_getBlock :: "nat \<Rightarrow> BlockEntry io" where
  "Batch_getBlock seq = (\<lambda>s.
     case map_of (blocks s) seq of
       Some b \<Rightarrow> (Inr b, s)
     | None \<Rightarrow>
         bindM (BTree_getBlock seq TheBatch)
           (\<lambda>b s1. (Inr b, s1\<lparr>blocks := (seq, b) # blocks s1\<rparr>)) s)"

text \<open>\<open>block.tree.getBlock(seq)\<close> and \<open>block.tree.getKey(seq)\<close>, dispatched on the object in
  the \<open>tree\<close> field (\<open>BTree.getBlock\<close> defaults its \<open>batch\<close> to the tree itself).\<close>

definition tree_getBlock :: "owner \<Rightarrow> nat \<Rightarrow> BlockEntry io" where
  "tree_getBlock t seq = (case t of TheTree \<Rightarrow> BTree_getBlock seq TheTree | TheBatch \<Rightarrow> Batch_getBlock seq)"

definition tree_getKey :: "owner \<Rightarrow> nat \<Rightarrow> string io" where
  "tree_getKey t seq = bindM (tree_getBlock t seq) (\<lambda>b. returnM (bkey b))"

section \<open>Tree nodes\<close>

text \<open>
  A JavaScript method mutates its node in place; here it returns the node after the
  call next to its result.  \<open>getKey\<close> and \<open>getChildNode\<close> fill the slot they resolve.
\<close>

definition getKey :: "TreeNode \<Rightarrow> nat \<Rightarrow> (string \<times> TreeNode) io" where
  "getKey node index =
     (if index < length (keys node)
      then (let key = keys node ! index
            in case kvalue key of
                 Some v \<Rightarrow> returnM (v, node)
               | None \<Rightarrow>
                   (case block node of
                      NotABlock \<Rightarrow> throwM TypeError
                    | Block b \<Rightarrow>
                        bindM (if kseq key = bseq b then returnM (bkey b)
                               else tree_getKey (btree b) (kseq key))
                          (\<lambda>k. returnM (k, TreeNode (block node)
                                              ((keys node)[index := Key (kseq key) (Some k)])
                                              (children node) (changed node)))))
      else throwM TypeError)"

definition getChildNode :: "TreeNode \<Rightarrow> nat \<Rightarrow> (TreeNode \<times> TreeNode) io" where
  "getChildNode node index =
     (if index < length (children node)
      then (let child = children node ! index
            in case cvalue child of
                 Some v \<Rightarrow> returnM (v, node)
               | None \<Rightarrow>
                   (case block node of
                      NotABlock \<Rightarrow> throwM TypeError
                    | Block b \<Rightarrow>
                        bindM (if cseq child = bseq b then returnM b
                               else tree_getBlock (btree b) (cseq child))
                          (\<lambda>blk. bindM (liftE (getTreeNode blk (coffset child)))
                          (\<lambda>v. returnM (v, TreeNode (block node) (keys node)
                                              ((children node)[index := Child (cseq child) (coffset child) (Some v)])
                                              (changed node))))))
      else throwM TypeError)"

definition setKey :: "TreeNode \<Rightarrow> nat \<Rightarrow> Key \<Rightarrow> TreeNode" where
  "setKey node index key = TreeNode (block node) ((keys node)[index := key]) (children node) True"

text \<open>
  The binary search that \<open>TreeNode.insertKey\<close>, \<open>Batch.get\<close> and \<open>Batch.put\<close> each write out:
  \<open>s\<close>, \<open>e\<close> and \<open>c\<close> are the loop variables (\<open>c\<close> is \<open>undefined\<close> before the first
  comparison).  It ends with \<open>Found mid\<close> where the source leaves the loop on \<open>c === 0\<close>,
  and with \<open>NotFound i\<close>, \<open>i = c < 0 ? e : s\<close>, where the loop runs out.
\<close>

datatype found = Found nat | NotFound nat

function bsearch :: "string option \<Rightarrow> TreeNode \<Rightarrow> nat \<Rightarrow> nat \<Rightarrow> int option \<Rightarrow> (found \<times> TreeNode) io" where
  "bsearch key node s e c =
     (if s < e
      then (let mid = (s + e) div 2
            in bindM (getKey node mid) (\<lambda>(k, node').
                 case key of
                   None \<Rightarrow> throwM NullCompare
                 | Some kv \<Rightarrow>
                     (let c' = cmp kv k
                      in if c' = 0 then returnM (Found mid, node')
                         else if c' < 0 then bsearch key node' s mid (Some c')
                         else bsearch key node' (mid + 1) e (Some c'))))
      else returnM (NotFound (case c of None \<Rightarrow> s | Some c' \<Rightarrow> if c' < 0 then e else s), node))"
  by pat_completeness auto
termination
  by (relation "measure (\<lambda>(key, node, s, e, c). e - s)") auto

text \<open>\<open>xs.splice(i, 0, x)\<close>.\<close>

definition splice_at :: "'a list \<Rightarrow> nat \<Rightarrow> 'a \<Rightarrow> 'a list" where
  "splice_at xs i x = take i xs @ [x] @ drop i xs"

definition insertKey :: "TreeNode \<Rightarrow> Key \<Rightarrow> TreeNode option \<Rightarrow> (bool \<times> TreeNode) io" where
  "insertKey node key child =
     bindM (bsearch (kvalue key) node 0 (length (keys node)) None) (\<lambda>(r, node').
       case r of
         Found mid \<Rightarrow> returnM (True, setKey node' mid key)
       | NotFound i \<Rightarrow>
           (let ks = splice_at (keys node') i key;
                cs = (case child of
                        None \<Rightarrow> children node'
                      | Some ch \<Rightarrow> splice_at (children node') (i + 1) (Child 0 0 (Some ch)))
            in returnM (length ks < MAX_CHILDREN, TreeNode (block node') ks cs True)))"

text \<open>
  \<open>xs.pop()\<close>: the last element and the shortened array; on an empty array the result is
  \<open>undefined\<close> (\<open>None\<close>) and the array stays empty.
\<close>

definition pop :: "'a list \<Rightarrow> 'a option \<times> 'a list" where
  "pop xs = (if xs = [] then (None, []) else (Some (last xs), butlast xs))"

text \<open>\<open>while (r.length < n) r.push(xs.pop())\<close>.\<close>

function pop_while :: "nat \<Rightarrow> 'a option list \<Rightarrow> 'a list \<Rightarrow> 'a option list \<times> 'a list" where
  "pop_while n r xs =
     (if length r < n then (case pop xs of (x, xs') \<Rightarrow> pop_while n (r @ [x]) xs') else (r, xs))"
  by pat_completeness auto
termination
  by (relation "measure (\<lambda>(n, r, xs). n - length r)") auto

text \<open>
  The node \<open>right\<close> that \<open>split\<close> creates with \<open>TreeNode.create(this.block.tree)\<close>: its
  arrays are filled by \<open>pop\<close>, so a slot holds \<open>undefined\<close> where the popped array had run
  out.  \<open>split\<close> returns \<open>left\<close> (the node itself after the pops), \<open>median\<close> and \<open>right\<close>.
\<close>

datatype RightNode = RightNode (rkeys: "Key option list") (rchildren: "Child option list")

definition split :: "TreeNode \<Rightarrow> TreeNode \<times> Key option \<times> RightNode" where
  "split node =
     (let len = length (keys node) div 2;
          (rk, ks1) = pop_while len [] (keys node);
          (median, ks2) = pop ks1;
          (rc, cs1) = (if children node \<noteq> []
                       then (case pop_while (len + 1) [] (children node) of (r, cs') \<Rightarrow> (rev r, cs'))
                       else ([], children node))
      in (TreeNode (block node) ks2 cs1 True, median, RightNode (rev rk) rc))"

text \<open>
  \<open>right\<close> as a \<open>TreeNode\<close> (created changed, with the tree object in its \<open>block\<close> field).
  An \<open>undefined\<close> slot makes \<open>put\<close> fail with a \<open>TypeError\<close> before its append, when
  \<open>buildIndex\<close> or \<open>deflate\<close> reads a property of it; \<open>put\<close> below raises it where it takes
  \<open>right\<close> over.
\<close>

definition materialize :: "RightNode \<Rightarrow> TreeNode option" where
  "materialize r =
     (case (those (rkeys r), those (rchildren r)) of
        (Some ks, Some cs) \<Rightarrow> Some (TreeNode NotABlock ks cs True)
      | _ \<Rightarrow> None)"

text \<open>
  \<open>buildIndex(index, seq)\<close>: returns the offset and the index array after the call.  The
  \<open>null\<close> pushed to reserve the slot is overwritten before the call returns; an empty level
  stands for it.  \<open>buildChildren\<close> is the \<open>for\<close> loop over the children.
\<close>

fun buildIndex :: "TreeNode \<Rightarrow> (Key list \<times> Child list) list \<Rightarrow> nat \<Rightarrow> nat \<times> (Key list \<times> Child list) list"
  and buildChildren :: "Child list \<Rightarrow> (Key list \<times> Child list) list \<Rightarrow> nat \<Rightarrow> Child list \<times> (Key list \<times> Child list) list"
where
  "buildIndex (TreeNode b ks cs ch) index seq =
     (let offset = length index;
          (cs', index') = buildChildren cs (index @ [([], [])]) seq
      in (offset, index'[offset := (ks, cs')]))"
| "buildChildren [] index seq = ([], index)"
| "buildChildren (Child s off v # cs) index seq =
     (case v of
        None \<Rightarrow> (let (r, index') = buildChildren cs index seq in (Child s off v # r, index'))
      | Some n \<Rightarrow>
          if \<not> changed n
          then (let (r, index') = buildChildren cs index seq in (Child s off v # r, index'))
          else (let (off', index1) = buildIndex n index seq;
                    (r, index2) = buildChildren cs index1 seq
                in (Child seq off' None # r, index2)))"

section \<open>Batch: get and put\<close>

definition new_Batch :: "unit io" where
  "new_Batch = (\<lambda>s. (Inr (), s\<lparr>blocks := []\<rparr>))"

text \<open>\<open>Batch.append(raw)\<close> and \<open>Batch._append(root, seq, key, value)\<close>.\<close>

definition Batch_append :: "NodeMsg \<Rightarrow> unit io" where
  "Batch_append raw = feed_append (NodeBytes raw)"

definition Batch_append_root :: "TreeNode \<Rightarrow> nat \<Rightarrow> string \<Rightarrow> string option \<Rightarrow> unit io" where
  "Batch_append_root root seq key value =
     (case buildIndex root [] seq of
        (off, index) \<Rightarrow> Batch_append \<lparr>nkey = key, nvalue = value, nindex = deflate index\<rparr>)"

text \<open>
  The loop of \<open>Batch.get\<close> over the nodes of a path.  Each iteration takes one unit of
  fuel; a path that does not end (a child reference that leads back to its own node)
  uses it up.
\<close>

fun get_loop :: "nat \<Rightarrow> string \<Rightarrow> TreeNode \<Rightarrow> BlockEntry option io" where
  "get_loop 0 key node = throwM Diverged"
| "get_loop (Suc fuel) key node =
     bindM (bsearch (Some key) node 0 (length (keys node)) None) (\<lambda>(r, node').
       case r of
         Found mid \<Rightarrow> bindM (Batch_getBlock (kseq (keys node' ! mid))) (\<lambda>b. returnM (Some b))
       | NotFound i \<Rightarrow>
           if children node' = [] then returnM None
           else bindM (getChildNode node' i) (\<lambda>(ch, node''). get_loop fuel key ch))"

definition Batch_get :: "nat \<Rightarrow> string \<Rightarrow> BlockEntry option io" where
  "Batch_get fuel key =
     bindM BTree_getRoot (\<lambda>root.
       case root of None \<Rightarrow> returnM None | Some node \<Rightarrow> get_loop fuel key node)"

text \<open>
  \<open>Batch.put\<close>.  The source keeps the nodes of the path on a stack and reaches the root
  again through the references the child slots hold.  Here a stack frame is the parent
  together with the index of the slot that was followed, and \<open>setChild\<close> writes the node
  as it is now back into that slot; \<open>plug\<close> does so up to the root.
\<close>

definition setChild :: "TreeNode \<Rightarrow> nat \<Rightarrow> TreeNode \<Rightarrow> TreeNode" where
  "setChild p i n =
     TreeNode (block p) (keys p)
       ((children p)[i := Child (cseq (children p ! i)) (coffset (children p ! i)) (Some n)])
       (changed p)"

fun plug :: "(TreeNode \<times> nat) list \<Rightarrow> TreeNode \<Rightarrow> TreeNode" where
  "plug [] node = node"
| "plug ((p, i) # stack) node = plug stack (setChild p i node)"

text \<open>The walk down (\<open>while (node.children.length)\<close>).  The result says whether the key was
  found in an internal node (then \<open>setKey\<close> has been applied), and gives the node the walk
  ended at and the stack.\<close>

fun descend :: "nat \<Rightarrow> Key \<Rightarrow> TreeNode \<Rightarrow> (TreeNode \<times> nat) list \<Rightarrow> (bool \<times> TreeNode \<times> (TreeNode \<times> nat) list) io" where
  "descend 0 target node stack = throwM Diverged"
| "descend (Suc fuel) target node stack =
     (if children node \<noteq> []
      then (let node1 = TreeNode (block node) (keys node) (children node) True
            in bindM (bsearch (kvalue target) node1 0 (length (keys node1)) None) (\<lambda>(r, node2).
                 case r of
                   Found mid \<Rightarrow> returnM (True, setKey node2 mid target, stack)
                 | NotFound i \<Rightarrow>
                     bindM (getChildNode node2 i) (\<lambda>(ch, node3).
                       descend fuel target ch ((node3, i) # stack))))
      else returnM (False, node, stack))"

text \<open>The loop \<open>while (needsSplit)\<close>; it returns the root to serialise.\<close>

fun propagate :: "TreeNode \<Rightarrow> (TreeNode \<times> nat) list \<Rightarrow> TreeNode io" where
  "propagate node [] =
     (case split node of
        (left, median, right) \<Rightarrow>
          (case (median, materialize right) of
             (Some m, Some r) \<Rightarrow>
               returnM (TreeNode (block node) [m] [Child 0 0 (Some left), Child 0 0 (Some r)] True)
           | _ \<Rightarrow> throwM TypeError))"
| "propagate node ((parent, i) # stack) =
     (case split node of
        (left, median, right) \<Rightarrow>
          (case (median, materialize right) of
             (Some m, Some r) \<Rightarrow>
               bindM (insertKey (setChild parent i left) m (Some r)) (\<lambda>(notFull, parent').
                 if notFull then returnM (plug stack parent') else propagate parent' stack)
           | _ \<Rightarrow> throwM TypeError))"

definition Batch_put :: "nat \<Rightarrow> string \<Rightarrow> string option \<Rightarrow> unit io" where
  "Batch_put fuel key value =
     bindM BTree_getRoot (\<lambda>root.
     bindM feed_length (\<lambda>seq.
       let target = Key seq (Some key)
       in case root of
            None \<Rightarrow> Batch_append \<lparr>nkey = key, nvalue = None, nindex = deflate [([target], [])]\<rparr>
          | Some node \<Rightarrow>
              bindM (descend fuel target node []) (\<lambda>(hit, node1, stack).
                if hit then Batch_append_root (plug stack node1) seq key value
                else bindM (insertKey node1 target None) (\<lambda>(notFull, node2).
                       if notFull then Batch_append_root (plug stack node2) seq key value
                       else bindM (propagate node2 stack) (\<lambda>root'.
                              Batch_append_root root' seq key value)))))"

text \<open>\<open>BTree.get\<close> and \<open>BTree.put\<close>: a fresh \<open>Batch\<close> each.\<close>

definition BTree_get :: "nat \<Rightarrow> string \<Rightarrow> BlockEntry option io" where
  "BTree_get fuel key = bindM new_Batch (\<lambda>_. Batch_get fuel key)"

definition BTree_put :: "nat \<Rightarrow> string \<Rightarrow> string option \<Rightarrow> unit io" where
  "BTree_put fuel key value = bindM new_Batch (\<lambda>_. Batch_put fuel key value)"

section \<open>Range scan\<close>

text \<open>
  \<open>createReadStream\<close>: the stack of frames \<open>{ node, i }\<close> with its top at the head of the
  list.  \<open>open_loop\<close> is the loop of \<open>open\<close> (its first node is what \<open>getRoot\<close> returned,
  \<open>null\<close> for an empty tree), \<open>next_loop\<close> the loop of \<open>next\<close>, which ends with the pushed
  item: a block, or \<open>None\<close> for \<open>stream.push(null)\<close>.  \<open>drain\<close> reads the stream until the
  end marker.  The stream as a whole is the list of the blocks it emits when it ends
  cleanly, and the error when it is destroyed with one.
\<close>

fun open_loop :: "nat \<Rightarrow> TreeNode option \<Rightarrow> (TreeNode \<times> nat) list \<Rightarrow> (TreeNode \<times> nat) list io" where
  "open_loop 0 node stack = throwM Diverged"
| "open_loop (Suc fuel) None stack = throwM TypeError"
| "open_loop (Suc fuel) (Some node) stack =
     (if children node = [] then returnM ((node, 0) # stack)
      else bindM (getChildNode node 0) (\<lambda>(ch, node').
             open_loop fuel (Some ch) ((node', 1) # stack)))"

fun next_loop :: "nat \<Rightarrow> (TreeNode \<times> nat) list \<Rightarrow> (BlockEntry option \<times> (TreeNode \<times> nat) list) io" where
  "next_loop 0 stack = throwM Diverged"
| "next_loop (Suc fuel) [] = returnM (None, [])"
| "next_loop (Suc fuel) ((node, i) # rest) =
     (let isKey = (i mod 2 = 1);
          n = i div 2
      in if \<not> isKey
         then (if children node = [] then next_loop fuel ((node, i + 1) # rest)
               else bindM (getChildNode node n) (\<lambda>(ch, node').
                      next_loop fuel ((ch, 0) # (node', i + 1) # rest)))
         else if n \<ge> length (keys node) then next_loop fuel rest
         else bindM (BTree_getBlock (kseq (keys node ! n)) TheTree) (\<lambda>b.
                returnM (Some b, (node, i + 1) # rest)))"

fun drain :: "nat \<Rightarrow> (TreeNode \<times> nat) list \<Rightarrow> BlockEntry list io" where
  "drain 0 stack = throwM Diverged"
| "drain (Suc fuel) stack =
     bindM (next_loop (Suc fuel) stack) (\<lambda>(item, stack').
       case item of
         None \<Rightarrow> returnM []
       | Some b \<Rightarrow> bindM (drain fuel stack') (\<lambda>bs. returnM (b # bs)))"

definition createReadStream :: "nat \<Rightarrow> BlockEntry list io" where
  "createReadStream fuel =
     bindM BTree_getRoot (\<lambda>root.
     bindM (open_loop fuel root []) (\<lambda>stack. drain fuel stack))"

text \<open>A feed that has never been opened, and the state an operation starts in.\<close>

definition on_feed :: "payload list \<Rightarrow> state" where
  "on_feed f = \<lparr>feed = f, reads = [], blocks = []\<rparr>"

section \<open>Running the operations\<close>

text \<open>A sequence of \<open>put\<close> calls, one after the other, each on the state the one before
  left; and the index of the last entry of the feed, whose level 0 is the current root.\<close>

definition put_all :: "nat \<Rightarrow> (string \<times> string option) list \<Rightarrow> state \<Rightarrow> state" where
  "put_all fuel kvs s = fold (\<lambda>(k, v) s'. snd (BTree_put fuel k v s')) kvs s"

definition root_index :: "payload list \<Rightarrow> Level list" where
  "root_index f =
     (if f = [] then []
      else (case last f of HeaderLit \<Rightarrow> [] | NodeBytes m \<Rightarrow> nindex m))"

text \<open>What one call of \<open>put\<close> with key \<open>k\<close> and value \<open>v\<close> from state \<open>s\<close> may leave: on an
  error the feed as it was, else the feed with one \<open>Node\<close> record for \<open>k\<close> and \<open>v\<close> added.\<close>

definition one_append :: "state \<Rightarrow> string \<Rightarrow> string option \<Rightarrow> (error + unit) \<times> state \<Rightarrow> bool" where
  "one_append s k v res =
     (case res of
        (Inl e, s') \<Rightarrow> feed s' = feed s
      | (Inr u, s') \<Rightarrow> (\<exists>msg. feed s' = feed s @ [NodeBytes msg] \<and> nkey msg = k \<and> nvalue msg = v))"

section \<open>The tree an entry stands for\<close>

text \<open>
  The rest of the definitions serve the proofs about \<open>put\<close> followed by \<open>get\<close>.  With
  \<open>MAX_CHILDREN = 3\<close> a node that has been written has one or two keys, and either no
  children or one child more than keys: the tree is a 2-3 tree whose keys are sequence
  numbers of entries.  \<open>inorder\<close> lists them from left to right.
\<close>

datatype t23 = L1 nat | L2 nat nat | B1 t23 nat t23 | B2 t23 nat t23 nat t23

fun inorder :: "t23 \<Rightarrow> nat list" where
  "inorder (L1 a) = [a]"
| "inorder (L2 a b) = [a, b]"
| "inorder (B1 l a r) = inorder l @ a # inorder r"
| "inorder (B2 l a m b r) = inorder l @ a # inorder m @ b # inorder r"

fun height :: "t23 \<Rightarrow> nat" where
  "height (L1 a) = 1"
| "height (L2 a b) = 1"
| "height (B1 l a r) = Suc (max (height l) (height r))"
| "height (B2 l a m b r) = Suc (max (height l) (max (height m) (height r)))"

text \<open>
  Reading the feed: \<open>isnode f q\<close> says that entry \<open>q\<close> exists and is a \<open>Node\<close> record,
  \<open>msg f q\<close> is that record, \<open>kof f q\<close> its key, \<open>Lf f s off\<close> the level at offset \<open>off\<close>
  of its index, and \<open>blk f ow q\<close> the \<open>BlockEntry\<close> that \<open>getBlock\<close> makes of it for the
  owner \<open>ow\<close>.
\<close>

definition isnode :: "payload list \<Rightarrow> nat \<Rightarrow> bool" where
  "isnode f q = (q < length f \<and> f ! q \<noteq> HeaderLit)"

definition msg :: "payload list \<Rightarrow> nat \<Rightarrow> NodeMsg" where
  "msg f q = (case f ! q of NodeBytes m \<Rightarrow> m)"

definition kof :: "payload list \<Rightarrow> nat \<Rightarrow> string" where
  "kof f q = nkey (msg f q)"

definition Lf :: "payload list \<Rightarrow> nat \<Rightarrow> nat \<Rightarrow> Level option" where
  "Lf f s off = (if isnode f s \<and> off < length (nindex (msg f s)) then Some (nindex (msg f s) ! off) else None)"

definition blk :: "payload list \<Rightarrow> owner \<Rightarrow> nat \<Rightarrow> BlockEntry" where
  "blk f ow q = \<lparr>bseq = q, btree = ow, indexBuffer = nindex (msg f q), bkey = nkey (msg f q), bvalue = nvalue (msg f q)\<rparr>"

text \<open>\<open>rep L s off t\<close>: under the levels \<open>L\<close>, the reference \<open>(s, off)\<close> leads to a node whose
  keys and subtrees are those of \<open>t\<close>.\<close>

fun rep :: "(nat \<Rightarrow> nat \<Rightarrow> Level option) \<Rightarrow> nat \<Rightarrow> nat \<Rightarrow> t23 \<Rightarrow> bool" where
  "rep L s off (L1 a) = (L s off = Some \<lparr>lkeys = [a], lchildren = []\<rparr>)"
| "rep L s off (L2 a b) = (L s off = Some \<lparr>lkeys = [a, b], lchildren = []\<rparr>)"
| "rep L s off (B1 l a r) =
     (\<exists>s1 o1 s2 o2. L s off = Some \<lparr>lkeys = [a], lchildren = [(s1, o1), (s2, o2)]\<rparr> \<and>
        rep L s1 o1 l \<and> rep L s2 o2 r)"
| "rep L s off (B2 l a m b r) =
     (\<exists>s1 o1 s2 o2 s3 o3. L s off = Some \<lparr>lkeys = [a, b], lchildren = [(s1, o1), (s2, o2), (s3, o3)]\<rparr> \<and>
        rep L s1 o1 l \<and> rep L s2 o2 m \<and> rep L s3 o3 r)"

text \<open>
  \<open>succeeds f m P\<close>: run on any state whose feed is \<open>f\<close>, the computation \<open>m\<close> returns a
  value that satisfies \<open>P\<close> and leaves the feed and the block cache as they were (it may
  have read the feed).  \<open>finds f m b\<close>: with an empty block cache, \<open>m\<close> returns the block
  \<open>b\<close>.
\<close>

definition succeeds :: "payload list \<Rightarrow> 'a io \<Rightarrow> ('a \<Rightarrow> bool) \<Rightarrow> bool" where
  "succeeds f m P = (\<forall>s. feed s = f \<longrightarrow>
     (\<exists>x s'. m s = (Inr x, s') \<and> feed s' = f \<and> blocks s' = blocks s \<and> P x))"

definition finds :: "payload list \<Rightarrow> BlockEntry option io \<Rightarrow> BlockEntry \<Rightarrow> bool" where
  "finds f m b = (\<forall>s. feed s = f \<and> blocks s = [] \<longrightarrow> (\<exists>s'. m s = (Inr (Some b), s') \<and> feed s' = f))"

text \<open>
  Nodes in memory.  \<open>loaded f b\<close>: \<open>b\<close> is the block that the tree itself made of an entry
  of \<open>f\<close>.  \<open>K\<close> gives the key bytes of a sequence number, for the entries of the feed
  (\<open>agree\<close>) and for the entry that the running \<open>put\<close> is about to append.  A key slot is
  in order (\<open>kok\<close>) when it is resolved to those bytes, or unresolved and in the feed;
  \<open>res\<close> is the slot after \<open>getKey\<close>.  \<open>skey K q\<close> is the string that \<open>cmp\<close> compares for the
  key of \<open>q\<close>.  \<open>fresh f s off\<close> is the node that \<open>getTreeNode\<close> makes of the level at
  \<open>(s, off)\<close>.
\<close>

definition loaded :: "payload list \<Rightarrow> BlockEntry \<Rightarrow> bool" where
  "loaded f b = (isnode f (bseq b) \<and> b = blk f TheTree (bseq b))"

definition kok :: "payload list \<Rightarrow> (nat \<Rightarrow> string) \<Rightarrow> Key \<Rightarrow> bool" where
  "kok f K key = (case kvalue key of None \<Rightarrow> isnode f (kseq key) | Some v \<Rightarrow> v = K (kseq key))"

definition agree :: "payload list \<Rightarrow> (nat \<Rightarrow> string) \<Rightarrow> bool" where
  "agree f K = (\<forall>q. isnode f q \<longrightarrow> K q = kof f q)"

definition res :: "(nat \<Rightarrow> string) \<Rightarrow> Key \<Rightarrow> Key" where
  "res K key = Key (kseq key) (Some (K (kseq key)))"

abbreviation skey :: "(nat \<Rightarrow> string) \<Rightarrow> nat \<Rightarrow> int list" where
  "skey K q \<equiv> toString (K q)"

definition fresh :: "payload list \<Rightarrow> nat \<Rightarrow> nat \<Rightarrow> TreeNode" where
  "fresh f s off =
     (case Lf f s off of
        Some l \<Rightarrow> TreeNode (Block (blk f TheTree s)) (map (\<lambda>q. Key q None) (lkeys l))
                    (map (\<lambda>(q, off'). Child q off' None) (lchildren l)) False)"

text \<open>
  \<open>mrep L n t\<close>: the node \<open>n\<close> in memory stands for the tree \<open>t\<close>.  A child slot stands for
  a subtree through the node it caches when that node is changed (\<open>buildIndex\<close> will write
  it anew), and through its reference \<open>(seq, offset)\<close> otherwise.
\<close>

fun mrep :: "(nat \<Rightarrow> nat \<Rightarrow> Level option) \<Rightarrow> TreeNode \<Rightarrow> t23 \<Rightarrow> bool"
  and crep :: "(nat \<Rightarrow> nat \<Rightarrow> Level option) \<Rightarrow> Child \<Rightarrow> t23 \<Rightarrow> bool"
where
  "mrep L n (L1 a) = (map kseq (keys n) = [a] \<and> children n = [])"
| "mrep L n (L2 a b) = (map kseq (keys n) = [a, b] \<and> children n = [])"
| "mrep L n (B1 l a r) =
     (map kseq (keys n) = [a] \<and> (\<exists>c1 c2. children n = [c1, c2] \<and> crep L c1 l \<and> crep L c2 r))"
| "mrep L n (B2 l a m b r) =
     (map kseq (keys n) = [a, b] \<and>
      (\<exists>c1 c2 c3. children n = [c1, c2, c3] \<and> crep L c1 l \<and> crep L c2 m \<and> crep L c3 r))"
| "crep L c t =
     (case cvalue c of
        None \<Rightarrow> rep L (cseq c) (coffset c) t
      | Some n \<Rightarrow> if changed n then mrep L n t else rep L (cseq c) (coffset c) t)"

text \<open>
  Writing the index.  \<open>lev\<close> is what \<open>deflate\<close> makes of one element of the index array and
  \<open>bchild\<close> one round of the loop of \<open>buildIndex\<close> over the children.  \<open>extends L L'\<close>:
  the levels \<open>L'\<close> contain the levels \<open>L\<close>.  \<open>holds_index L' seq lo idx\<close>: from offset \<open>lo\<close> on,
  entry \<open>seq\<close> of \<open>L'\<close> holds the array \<open>idx\<close>.  \<open>written\<close>: the array has only grown.
  \<open>sound L seq lo idx s off t\<close>: wherever the array \<open>idx\<close> ends up in entry \<open>seq\<close>, the
  reference \<open>(s, off)\<close> leads to \<open>t\<close>.  \<open>builds L seq t\<close>: \<open>buildIndex\<close> writes any node
  that stands for \<open>t\<close> at the end of the array, soundly.
\<close>

definition lev :: "Key list \<times> Child list \<Rightarrow> Level" where
  "lev p = \<lparr>lkeys = map kseq (fst p), lchildren = map (\<lambda>c. (cseq c, coffset c)) (snd p)\<rparr>"

definition bchild :: "Child \<Rightarrow> (Key list \<times> Child list) list \<Rightarrow> nat \<Rightarrow> Child \<times> (Key list \<times> Child list) list" where
  "bchild c idx seq =
     (case cvalue c of
        None \<Rightarrow> (c, idx)
      | Some n \<Rightarrow> if \<not> changed n then (c, idx)
                  else (case buildIndex n idx seq of (off', idx1) \<Rightarrow> (Child seq off' None, idx1)))"

definition extends :: "(nat \<Rightarrow> nat \<Rightarrow> Level option) \<Rightarrow> (nat \<Rightarrow> nat \<Rightarrow> Level option) \<Rightarrow> bool" where
  "extends L L' = (\<forall>s off l. L s off = Some l \<longrightarrow> L' s off = Some l)"

definition holds_index :: "(nat \<Rightarrow> nat \<Rightarrow> Level option) \<Rightarrow> nat \<Rightarrow> nat \<Rightarrow> (Key list \<times> Child list) list \<Rightarrow> bool" where
  "holds_index L' seq lo idx = (\<forall>off. lo \<le> off \<and> off < length idx \<longrightarrow> L' seq off = Some (lev (idx ! off)))"

definition written :: "(nat \<Rightarrow> nat \<Rightarrow> Level option) \<Rightarrow> nat \<Rightarrow> (Key list \<times> Child list) list \<Rightarrow> (Key list \<times> Child list) list \<Rightarrow> bool" where
  "written L seq idx idx' =
     (length idx \<le> length idx' \<and> take (length idx) idx' = idx)"

definition sound :: "(nat \<Rightarrow> nat \<Rightarrow> Level option) \<Rightarrow> nat \<Rightarrow> nat \<Rightarrow> (Key list \<times> Child list) list \<Rightarrow> nat \<Rightarrow> nat \<Rightarrow> t23 \<Rightarrow> bool" where
  "sound L seq lo idx s off t =
     (\<forall>L'. extends L L' \<and> holds_index L' seq lo idx \<longrightarrow> rep L' s off t)"

definition builds :: "(nat \<Rightarrow> nat \<Rightarrow> Level option) \<Rightarrow> nat \<Rightarrow> t23 \<Rightarrow> bool" where
  "builds L seq t =
     (\<forall>n idx. mrep L n t \<longrightarrow>
        (\<exists>idx'. buildIndex n idx seq = (length idx, idx') \<and> length idx < length idx' \<and>
                written L seq idx idx' \<and> sound L seq (length idx) idx' seq (length idx) t))"

text \<open>
  The part of \<open>Batch.put\<close> between \<open>getRoot\<close> and \<open>_append\<close>: the walk down, the insert
  into the leaf and the splits, ending with the root to write.
\<close>

definition put_walk :: "nat \<Rightarrow> Key \<Rightarrow> TreeNode \<Rightarrow> (TreeNode \<times> nat) list \<Rightarrow> TreeNode io" where
  "put_walk fuel target node stack =
     bindM (descend fuel target node stack) (\<lambda>(hit, node1, stack1).
       if hit then returnM (plug stack1 node1)
       else bindM (insertKey node1 target None) (\<lambda>(notFull, node2).
              if notFull then returnM (plug stack1 node2) else propagate node2 stack1))"

text \<open>
  \<open>wnode f K n t\<close>: \<open>n\<close> is a node as the walk meets it, loaded from the feed, with its
  child slots unresolved, and stands for \<open>t\<close>.  \<open>ctx_ok f K stack pre post d H\<close>: the
  stack of \<open>d\<close> frames can take back a changed node (\<open>plug\<close>) or a split node
  (\<open>propagate\<close>) in its hole, and the tree that results lists \<open>pre\<close> before and \<open>post\<close>
  after the keys of the hole; \<open>H\<close> bounds the height.  \<open>inserted\<close>: the root stands for a
  tree that lists the keys of \<open>whole\<close> with the new sequence number \<open>nn\<close> at the place of
  the key \<open>k\<close>.
\<close>

fun wnode :: "payload list \<Rightarrow> (nat \<Rightarrow> string) \<Rightarrow> TreeNode \<Rightarrow> t23 \<Rightarrow> bool" where
  "wnode f K n (L1 a) =
     (\<exists>b ka ch. n = TreeNode (Block b) [ka] [] ch \<and> loaded f b \<and> kok f K ka \<and> kseq ka = a)"
| "wnode f K n (L2 a b') =
     (\<exists>b ka kb ch. n = TreeNode (Block b) [ka, kb] [] ch \<and> loaded f b \<and>
        kok f K ka \<and> kseq ka = a \<and> kok f K kb \<and> kseq kb = b')"
| "wnode f K n (B1 l a r) =
     (\<exists>b ka ch s1 o1 s2 o2. n = TreeNode (Block b) [ka] [Child s1 o1 None, Child s2 o2 None] ch \<and>
        loaded f b \<and> kok f K ka \<and> kseq ka = a \<and> rep (Lf f) s1 o1 l \<and> rep (Lf f) s2 o2 r)"
| "wnode f K n (B2 l a m b' r) =
     (\<exists>b ka kb ch s1 o1 s2 o2 s3 o3.
        n = TreeNode (Block b) [ka, kb] [Child s1 o1 None, Child s2 o2 None, Child s3 o3 None] ch \<and>
        loaded f b \<and> kok f K ka \<and> kseq ka = a \<and> kok f K kb \<and> kseq kb = b' \<and>
        rep (Lf f) s1 o1 l \<and> rep (Lf f) s2 o2 m \<and> rep (Lf f) s3 o3 r)"

definition ctx_ok :: "payload list \<Rightarrow> (nat \<Rightarrow> string) \<Rightarrow> (TreeNode \<times> nat) list \<Rightarrow> nat list \<Rightarrow> nat list \<Rightarrow> nat \<Rightarrow> nat \<Rightarrow> bool" where
  "ctx_ok f K stack pre post d H =
     ((\<forall>n t1. mrep (Lf f) n t1 \<and> changed n \<longrightarrow>
         (\<exists>t'. mrep (Lf f) (plug stack n) t' \<and> inorder t' = pre @ inorder t1 @ post \<and>
               (height t1 + d \<le> H \<longrightarrow> height t' \<le> H)))
    \<and> (\<forall>node left m rnode right l r.
          split node = (left, Some m, rnode) \<and> materialize rnode = Some right \<and>
          mrep (Lf f) left l \<and> changed left \<and> mrep (Lf f) right r \<and> changed right \<and>
          kvalue m = Some (K (kseq m)) \<and>
          (\<forall>q\<in>set pre. skey K q < skey K (kseq m)) \<and> (\<forall>q\<in>set post. skey K (kseq m) < skey K q) \<and>
          height l + d \<le> H \<and> height r + d \<le> H \<longrightarrow>
          succeeds f (propagate node stack)
            (\<lambda>root. \<exists>t'. mrep (Lf f) root t' \<and> inorder t' = pre @ inorder l @ kseq m # inorder r @ post \<and>
                           height t' \<le> Suc H)))"

definition inserted :: "(nat \<Rightarrow> nat \<Rightarrow> Level option) \<Rightarrow> (nat \<Rightarrow> string) \<Rightarrow> string \<Rightarrow> nat \<Rightarrow> nat list \<Rightarrow> nat \<Rightarrow> TreeNode \<Rightarrow> bool" where
  "inserted L K k nn whole H root =
     (\<exists>t' A B. mrep L root t' \<and> inorder t' = A @ nn # B \<and>
        (whole = A @ B \<or> (\<exists>old. whole = A @ old # B \<and> skey K old = toString k)) \<and>
        (\<forall>q\<in>set A. skey K q < toString k) \<and> (\<forall>q\<in>set B. toString k < skey K q) \<and> height t' \<le> Suc H)"

text \<open>
  The invariant of a feed that holds a tree: its last entry leads to a tree \<open>t\<close> whose
  keys are entries of the feed, strictly increasing from left to right in the order of
  \<open>cmp\<close>, and whose height is less than the length of the feed.  \<open>reached s j\<close>: the state after \<open>j\<close> puts on a new
  feed.
\<close>

definition good :: "payload list \<Rightarrow> t23 \<Rightarrow> bool" where
  "good f t = (rep (Lf f) (length f - 1) 0 t \<and> (\<forall>q\<in>set (inorder t). isnode f q) \<and>
               sorted_wrt (<) (map (skey (kof f)) (inorder t)) \<and> Suc (height t) \<le> length f)"

definition tree_inv :: "payload list \<Rightarrow> bool" where
  "tree_inv f = (2 \<le> length f \<and> (\<exists>t. good f t))"

definition reached :: "state \<Rightarrow> nat \<Rightarrow> bool" where
  "reached s j = ((feed s = [] \<and> j = 0) \<or> (tree_inv (feed s) \<and> length (feed s) = Suc j))"

declare bsearch.simps [simp del] pop_while.simps [simp del]

section \<open>The feed is only changed by appends\<close>

text \<open>
  Every operation under \<open>put\<close> other than \<open>ready\<close> and the final \<open>append\<close> reads the feed
  and leaves it as it is; the lemmas follow the call graph, from \<open>getBlock\<close> up to the
  walk of \<open>put\<close>.
\<close>

lemma feed_bindM:
  assumes "\<And>s. feed (snd (m s)) = feed s" and "\<And>x s. feed (snd (f x s)) = feed s"
  shows "feed (snd (bindM m f s)) = feed s"
proof (cases "m s")
  case (Pair r s')
  with assms(1)[of s] have "feed s' = feed s" by simp
  with Pair assms(2) show ?thesis by (cases r) (simp_all add: bindM_def)
qed

lemma feed_returnM [simp]: "feed (snd (returnM x s)) = feed s"
  by (simp add: returnM_def)

lemma feed_throwM [simp]: "feed (snd (throwM e s)) = feed s"
  by (simp add: throwM_def)

lemma feed_liftE [simp]: "feed (snd (liftE r s)) = feed s"
  by (cases r) (simp_all add: liftE_def)

lemma feed_feed_length [simp]: "feed (snd (feed_length s)) = feed s"
  by (simp add: feed_length_def)

lemma feed_BTree_getBlock [simp]: "feed (snd (BTree_getBlock seq b s)) = feed s"
  by (simp add: BTree_getBlock_def Let_def split: payload.splits)

lemma feed_Batch_getBlock [simp]: "feed (snd (Batch_getBlock seq s)) = feed s"
proof (cases "map_of (blocks s) seq")
  case None
  have "feed (snd (bindM (BTree_getBlock seq TheBatch)
           (\<lambda>b s1. (Inr b, s1\<lparr>blocks := (seq, b) # blocks s1\<rparr>)) s)) = feed s"
    by (rule feed_bindM) simp_all
  with None show ?thesis by (simp add: Batch_getBlock_def)
next
  case (Some b)
  then show ?thesis by (simp add: Batch_getBlock_def)
qed

lemma feed_tree_getBlock [simp]: "feed (snd (tree_getBlock t seq s)) = feed s"
  by (cases t) (simp_all add: tree_getBlock_def)

lemma feed_tree_getKey [simp]: "feed (snd (tree_getKey t seq s)) = feed s"
  unfolding tree_getKey_def by (rule feed_bindM) simp_all

lemma feed_getKey [simp]: "feed (snd (getKey node i s)) = feed s"
  unfolding getKey_def Let_def
  by (auto split: option.splits blockref.splits intro!: feed_bindM)

lemma feed_getChildNode [simp]: "feed (snd (getChildNode node i s)) = feed s"
  unfolding getChildNode_def Let_def
  by (auto split: option.splits blockref.splits intro!: feed_bindM)

lemma feed_bsearch [simp]: "feed (snd (bsearch key node lo hi c s)) = feed s"
proof (induction "hi - lo" arbitrary: key lo hi node c s rule: less_induct)
  case less
  show ?case
  proof (cases "lo < hi")
    case False
    then show ?thesis by (subst bsearch.simps) simp
  next
    case True
    have a: "(lo + hi) div 2 - lo < hi - lo" "hi - ((lo + hi) div 2 + 1) < hi - lo"
      using True by auto
    show ?thesis
      apply (subst bsearch.simps)
      using True apply (simp add: Let_def)
      apply (rule feed_bindM)
       apply simp
      using a apply (auto split: option.splits simp add: Let_def less)
      done
  qed
qed

lemma feed_insertKey [simp]: "feed (snd (insertKey node key child s)) = feed s"
  unfolding insertKey_def
  by (rule feed_bindM) (auto split: found.splits simp add: Let_def)

lemma feed_descend [simp]: "feed (snd (descend fuel target node stack s)) = feed s"
proof (induction fuel arbitrary: node stack s)
  case 0
  then show ?case by simp
next
  case (Suc fuel)
  show ?case
    apply (simp add: Let_def)
    apply (intro impI feed_bindM)
     apply simp
    apply (auto split: found.splits intro!: feed_bindM Suc)
    done
qed

lemma feed_propagate [simp]: "feed (snd (propagate node stack s)) = feed s"
proof (induction stack arbitrary: node s)
  case Nil
  then show ?case by (simp split: prod.splits option.splits)
next
  case (Cons fr stack)
  obtain parent i where fr: "fr = (parent, i)" by (cases fr)
  show ?case
    unfolding fr
    by (auto split: prod.splits option.splits intro!: feed_bindM Cons)
qed

lemma feed_Batch_append_root:
  "\<exists>m. Batch_append_root root seq k v s = (Inr (), s\<lparr>feed := feed s @ [NodeBytes m]\<rparr>) \<and> nkey m = k \<and> nvalue m = v"
proof (cases "buildIndex root [] seq")
  case (Pair off index)
  then show ?thesis
    by (intro exI[of _ "\<lparr>nkey = k, nvalue = v, nindex = deflate index\<rparr>"])
       (simp add: Batch_append_root_def Batch_append_def feed_append_def)
qed


lemma getRoot_nonempty:
  assumes "2 \<le> length (feed s)"
  shows "feed (snd (BTree_getRoot s)) = feed s" and "fst (BTree_getRoot s) \<noteq> Inr None"
  using assms
  by (auto simp add: BTree_getRoot_def ready_def bindM_def feed_length_def returnM_def throwM_def
      liftE_def BTree_getBlock_def Let_def split: payload.splits sum.splits prod.splits)

lemma appends_bindM:
  assumes m: "\<And>s. feed (snd (m s)) = feed s"
    and f: "\<And>x s. one_append s k v (f x s)"
  shows "one_append s k v (bindM m f s)"
proof (cases "m s")
  case (Pair r s1)
  with m[of s] have eq: "feed s1 = feed s" by simp
  show ?thesis
  proof (cases r)
    case (Inl e)
    with Pair eq show ?thesis by (simp add: bindM_def one_append_def)
  next
    case (Inr x)
    from f[of s1 x] Pair Inr eq show ?thesis
      by (auto simp add: bindM_def one_append_def split: prod.splits sum.splits)
  qed
qed

lemma appends_root: "one_append s k v (Batch_append_root root seq k v s)"
  using feed_Batch_append_root[of root seq k v s] by (auto simp add: one_append_def)

lemma Batch_put_on_node:
  "one_append s k v
     (bindM (descend fuel target node []) (\<lambda>(hit, node1, stack).
                if hit then Batch_append_root (plug stack node1) seq k v
                else bindM (insertKey node1 target None) (\<lambda>(notFull, node2).
                       if notFull then Batch_append_root (plug stack node2) seq k v
                       else bindM (propagate node2 stack) (\<lambda>root'.
                              Batch_append_root root' seq k v))) s)"
proof (rule appends_bindM)
  fix x :: "bool \<times> TreeNode \<times> (TreeNode \<times> nat) list" and s :: state
  obtain hit node1 stack where x: "x = (hit, node1, stack)" by (cases x)
  have "one_append s k v (bindM (insertKey node1 target None) (\<lambda>(notFull, node2).
                       if notFull then Batch_append_root (plug stack node2) seq k v
                       else bindM (propagate node2 stack) (\<lambda>root'.
                              Batch_append_root root' seq k v)) s)"
  proof (rule appends_bindM)
    fix y :: "bool \<times> TreeNode" and s :: state
    obtain notFull node2 where y: "y = (notFull, node2)" by (cases y)
    have "one_append s k v (bindM (propagate node2 stack) (\<lambda>root'. Batch_append_root root' seq k v) s)"
      by (rule appends_bindM) (simp_all add: appends_root)
    then show "one_append s k v ((case y of (notFull, node2) \<Rightarrow>
                       if notFull then Batch_append_root (plug stack node2) seq k v
                       else bindM (propagate node2 stack) (\<lambda>root'.
                              Batch_append_root root' seq k v)) s)"
      by (simp add: y appends_root)
  qed simp
  then show "one_append s k v ((case x of (hit, node1, stack) \<Rightarrow>
                if hit then Batch_append_root (plug stack node1) seq k v
                else bindM (insertKey node1 target None) (\<lambda>(notFull, node2).
                       if notFull then Batch_append_root (plug stack node2) seq k v
                       else bindM (propagate node2 stack) (\<lambda>root'.
                              Batch_append_root root' seq k v))) s)"
    by (simp add: x appends_root)
qed simp

section \<open>Splitting\<close>

text \<open>The loop that pops \<open>n\<close> elements takes the last \<open>n\<close> elements, last first, as long
  as the array holds that many.\<close>

lemma pop_while_take_drop:
  "n - length r \<le> length xs \<Longrightarrow>
   pop_while n r xs =
     (r @ map Some (rev (drop (length xs - (n - length r)) xs)),
      take (length xs - (n - length r)) xs)"
proof (induction "n - length r" arbitrary: r xs)
  case 0
  then show ?case by (subst pop_while.simps) simp
next
  case (Suc m)
  then have lt: "length r < n" and ne: "xs \<noteq> []" by auto
  have m: "m = n - length (r @ [Some (last xs)])" using Suc.hyps(2) by simp
  have le: "n - length (r @ [Some (last xs)]) \<le> length (butlast xs)" using Suc.prems Suc.hyps(2) by simp
  have step: "pop_while n r xs = pop_while n (r @ [Some (last xs)]) (butlast xs)"
    using lt ne by (subst pop_while.simps) (simp add: pop_def)
  have d: "drop (length xs - Suc m) xs = drop (length xs - Suc m) (butlast xs) @ [last xs]"
  proof -
    have "drop (length xs - Suc m) (butlast xs @ [last xs]) =
          drop (length xs - Suc m) (butlast xs) @ [last xs]"
      by simp
    with ne show ?thesis by simp
  qed
  show ?case
    unfolding step Suc.hyps(1)[OF m le]
    using Suc.hyps(2) Suc.prems ne d
    by (simp add: butlast_conv_take min_def)
qed



section \<open>Reading keys and searching a node\<close>

text \<open>
  On a node loaded from the feed \<open>getKey\<close> returns the bytes of the key and fills the
  slot.  The binary search is followed through for the two sizes a written node has.
\<close>

lemma succeeds_return: "P x \<Longrightarrow> succeeds f (returnM x) P"
  by (simp add: succeeds_def returnM_def)

lemma succeeds_bind:
  assumes "succeeds f m P" and "\<And>x. P x \<Longrightarrow> succeeds f (g x) Q"
  shows "succeeds f (bindM m g) Q"
  unfolding succeeds_def
proof (intro allI impI)
  fix s :: state assume fs: "feed s = f"
  from assms(1) fs obtain x s' where m: "m s = (Inr x, s')" "feed s' = f" "blocks s' = blocks s" "P x"
    unfolding succeeds_def by blast
  from assms(2)[OF m(4)] m(2) obtain y s'' where g: "g x s' = (Inr y, s'')" "feed s'' = f" "blocks s'' = blocks s'" "Q y"
    unfolding succeeds_def by blast
  show "\<exists>x s'. bindM m g s = (Inr x, s') \<and> feed s' = f \<and> blocks s' = blocks s \<and> Q x"
    using m g by (simp add: bindM_def)
qed

lemma succeeds_weaken: "succeeds f m P \<Longrightarrow> (\<And>x. P x \<Longrightarrow> Q x) \<Longrightarrow> succeeds f m Q"
  unfolding succeeds_def by blast

lemma succeeds_getBlock:
  "isnode f q \<Longrightarrow> succeeds f (BTree_getBlock q ow) (\<lambda>b. b = blk f ow q)"
  by (auto simp add: succeeds_def BTree_getBlock_def isnode_def Let_def blk_def msg_def split: payload.splits)

lemma res_idem [simp]: "res K (res K key) = res K key"
  by (simp add: res_def)

lemma kok_res [simp]: "kok f K (res K key)"
  by (simp add: kok_def res_def)

lemma kseq_res [simp]: "kseq (res K key) = kseq key"
  by (simp add: res_def)

lemma kvalue_res [simp]: "kvalue (res K key) = Some (K (kseq key))"
  by (simp add: res_def)

lemma succeeds_getKey:
  assumes "loaded f b" "agree f K" "i < length ks" "kok f K (ks ! i)"
  shows "succeeds f (getKey (TreeNode (Block b) ks cs ch) i)
           (\<lambda>(k, n'). k = K (kseq (ks ! i)) \<and> n' = TreeNode (Block b) (ks[i := res K (ks ! i)]) cs ch)"
proof (cases "kvalue (ks ! i)")
  case (Some v)
  with assms(4) have v: "v = K (kseq (ks ! i))" by (simp add: kok_def)
  have "ks ! i = res K (ks ! i)" using Some v by (cases "ks ! i") (simp add: res_def)
  then have "ks[i := res K (ks ! i)] = ks" by (metis list_update_id)
  with Some v assms(3) show ?thesis
    by (simp add: getKey_def succeeds_def returnM_def)
next
  case None
  with assms(4) have q: "isnode f (kseq (ks ! i))" by (simp add: kok_def)
  with assms(2) have kq: "K (kseq (ks ! i)) = kof f (kseq (ks ! i))" by (simp add: agree_def)
  have inner: "succeeds f (if kseq (ks ! i) = bseq b then returnM (bkey b)
                               else tree_getKey (btree b) (kseq (ks ! i)))
                 (\<lambda>k. k = K (kseq (ks ! i)))"
  proof (cases "kseq (ks ! i) = bseq b")
    case True
    from assms(1) have "bkey b = kof f (bseq b)"
      unfolding loaded_def by (metis BlockEntry.select_convs(4) blk_def kof_def)
    with True kq show ?thesis by (simp add: succeeds_return)
  next
    case False
    from assms(1) have t: "btree b = TheTree"
      unfolding loaded_def by (metis BlockEntry.select_convs(2) blk_def)
    have "succeeds f (tree_getKey TheTree (kseq (ks ! i))) (\<lambda>k. k = K (kseq (ks ! i)))"
      unfolding tree_getKey_def tree_getBlock_def
      apply simp
      apply (rule succeeds_bind[OF succeeds_getBlock[OF q]])
      apply (rule succeeds_return)
      apply (simp add: blk_def kq kof_def)
      done
    with False t show ?thesis by simp
  qed
  show ?thesis
    using None assms(3)
    apply (simp add: getKey_def Let_def split del: if_split)
    apply (rule succeeds_bind[OF inner])
    apply (rule succeeds_return)
    apply (simp add: res_def)
    done
qed

lemma cmp_eq0 [simp]: "cmp a b = 0 \<longleftrightarrow> toString a = toString b"
  by (auto simp add: cmp_def)

lemma cmp_lt0 [simp]: "cmp a b < 0 \<longleftrightarrow> toString a < toString b"
  by (auto simp add: cmp_def)

lemma succeeds_return_iff [simp]: "succeeds f (returnM x) P \<longleftrightarrow> P x"
proof
  assume a: "succeeds f (returnM x) P"
  have "feed \<lparr>feed = f, reads = [], blocks = []\<rparr> = f" by simp
  with a show "P x" unfolding succeeds_def returnM_def by fastforce
qed (rule succeeds_return)

lemma bsearch_done: "\<not> lo < hi \<Longrightarrow> bsearch key n lo hi c = returnM (NotFound (case c of None \<Rightarrow> lo | Some c' \<Rightarrow> if c' < 0 then hi else lo), n)"
  by (subst bsearch.simps) simp

lemma bsearch_step:
  "lo < hi \<Longrightarrow> bsearch (Some x) n lo hi c =
     bindM (getKey n ((lo + hi) div 2)) (\<lambda>(k, node').
        if cmp x k = 0 then returnM (Found ((lo + hi) div 2), node')
        else if cmp x k < 0 then bsearch (Some x) node' lo ((lo + hi) div 2) (Some (cmp x k))
        else bsearch (Some x) node' ((lo + hi) div 2 + 1) hi (Some (cmp x k)))"
  by (subst bsearch.simps) (simp add: Let_def)

lemma bsearch1:
  assumes "loaded f b" "agree f K" "kok f K ka"
  shows "succeeds f (bsearch (Some x) (TreeNode (Block b) [ka] cs ch) 0 (Suc 0) c0)
           (\<lambda>(r, n'). n' = TreeNode (Block b) [res K ka] cs ch \<and>
              r = (if toString x = skey K (kseq ka) then Found 0
                   else if toString x < skey K (kseq ka) then NotFound 0 else NotFound 1))"
  apply (subst bsearch_step)
   apply simp
  apply (rule succeeds_bind[OF succeeds_getKey[OF assms(1,2)]])
    apply simp
   apply (simp add: assms)
  apply (auto simp add: bsearch_done)
  done

lemma bsearch2:
  assumes "loaded f b" "agree f K" "kok f K ka" "kok f K kb"
  shows "succeeds f (bsearch (Some x) (TreeNode (Block b) [ka, kb] cs ch) 0 (Suc (Suc 0)) c0)
           (\<lambda>(r, n').
              (if toString x = skey K (kseq kb) then r = Found 1 \<and> n' = TreeNode (Block b) [ka, res K kb] cs ch
               else if skey K (kseq kb) < toString x then r = NotFound 2 \<and> n' = TreeNode (Block b) [ka, res K kb] cs ch
               else if toString x = skey K (kseq ka) then r = Found 0 \<and> n' = TreeNode (Block b) [res K ka, res K kb] cs ch
               else if toString x < skey K (kseq ka) then r = NotFound 0 \<and> n' = TreeNode (Block b) [res K ka, res K kb] cs ch
               else r = NotFound 1 \<and> n' = TreeNode (Block b) [res K ka, res K kb] cs ch))"
  apply (subst bsearch_step)
   apply simp
  apply (rule succeeds_bind[OF succeeds_getKey[OF assms(1,2)]])
    apply simp
   apply (simp add: assms)
  apply (clarsimp simp add: bsearch_done)
  apply (intro conjI impI)
   apply (subst bsearch_step)
    apply simp
   apply (rule succeeds_bind[OF succeeds_getKey[OF assms(1,2)]])
     apply simp
    apply (simp add: assms)
   apply (auto simp add: bsearch_done)
  done

section \<open>Loading children; get finds a key of the tree\<close>

text \<open>
  \<open>getChildNode\<close> on an unresolved slot returns the node of the level the slot refers to.
  In a tree whose keys increase from left to right, the loop of \<open>get\<close> reaches the key it
  is asked for and returns the block of its entry.
\<close>

lemma finds_bind:
  assumes "succeeds f m P" and "\<And>x. P x \<Longrightarrow> finds f (g x) b"
  shows "finds f (bindM m g) b"
  unfolding finds_def
proof (intro allI impI)
  fix s :: state assume fs: "feed s = f \<and> blocks s = []"
  from assms(1) fs obtain x s' where m: "m s = (Inr x, s')" "feed s' = f" "blocks s' = blocks s" "P x"
    unfolding succeeds_def by blast
  from assms(2)[OF m(4)] m(2,3) fs obtain s'' where g: "g x s' = (Inr (Some b), s'')" "feed s'' = f"
    unfolding finds_def by auto
  show "\<exists>s'. bindM m g s = (Inr (Some b), s') \<and> feed s' = f"
    using m g by (simp add: bindM_def)
qed

lemma Lf_isnode: "Lf f s off = Some l \<Longrightarrow> isnode f s"
  by (simp add: Lf_def split: if_splits)

lemma getTreeNode_fresh:
  "Lf f s off = Some l \<Longrightarrow> getTreeNode (blk f ow s) off = Inr (TreeNode (Block (blk f ow s)) (map (\<lambda>q. Key q None) (lkeys l))
                    (map (\<lambda>(q, off'). Child q off' None) (lchildren l)) False)"
  by (auto simp add: Lf_def getTreeNode_def inflate_def blk_def Let_def split: if_splits)

lemma loaded_blk: "isnode f s \<Longrightarrow> loaded f (blk f TheTree s)"
  by (simp add: loaded_def blk_def)

lemma succeeds_liftE: "r = Inr x \<Longrightarrow> P x \<Longrightarrow> succeeds f (liftE r) P"
  by (simp add: liftE_def)

lemma succeeds_getChildNode:
  assumes "loaded f b" "i < length cs" "cs ! i = Child s1 o1 None" "Lf f s1 o1 = Some l"
  shows "succeeds f (getChildNode (TreeNode (Block b) ks cs ch) i)
           (\<lambda>(v, n'). v = fresh f s1 o1 \<and>
                       n' = TreeNode (Block b) ks (cs[i := Child s1 o1 (Some (fresh f s1 o1))]) ch)"
proof -
  have q: "isnode f s1" using assms(4) by (rule Lf_isnode)
  have blkb: "succeeds f (if s1 = bseq b then returnM b else tree_getBlock (btree b) s1)
                (\<lambda>x. x = blk f TheTree s1)"
  proof (cases "s1 = bseq b")
    case True
    with assms(1) show ?thesis by (simp add: loaded_def)
  next
    case False
    from assms(1) have t: "btree b = TheTree"
      unfolding loaded_def by (metis BlockEntry.select_convs(2) blk_def)
    show ?thesis using False t succeeds_getBlock[OF q, of TheTree] by (simp add: tree_getBlock_def)
  qed
  have fr: "getTreeNode (blk f TheTree s1) o1 = Inr (fresh f s1 o1)"
    using getTreeNode_fresh[OF assms(4), of TheTree] assms(4) by (simp add: fresh_def)
  show ?thesis
    using assms(2,3)
    apply (simp add: getChildNode_def Let_def split del: if_split cong: if_cong)
    apply (rule succeeds_bind[OF blkb])
    apply (rule succeeds_bind[where P = "\<lambda>v. v = fresh f s1 o1"])
     apply (simp add: fr liftE_def)
    apply simp
    done
qed

lemma finds_getBlock:
  assumes "isnode f q"
  shows "finds f (bindM (Batch_getBlock q) (\<lambda>b. returnM (Some b))) (blk f TheBatch q)"
  using assms
  by (auto simp add: finds_def Batch_getBlock_def bindM_def BTree_getBlock_def returnM_def isnode_def
      Let_def blk_def msg_def split: payload.splits)

lemma sorted_mid_left:
  "sorted_wrt (<) (map K (xs @ a # ys)) \<Longrightarrow> q \<in> set (xs @ a # ys) \<Longrightarrow> K q < K a \<Longrightarrow> q \<in> set xs"
  for K :: "nat \<Rightarrow> 'a :: linorder"
  by (force simp add: sorted_wrt_append)

lemma sorted_mid_right:
  "sorted_wrt (<) (map K (xs @ a # ys)) \<Longrightarrow> q \<in> set (xs @ a # ys) \<Longrightarrow> K a < K q \<Longrightarrow> q \<in> set ys"
  for K :: "nat \<Rightarrow> 'a :: linorder"
  by (force simp add: sorted_wrt_append)

lemma sorted_mid_eq:
  "sorted_wrt (<) (map K (xs @ a # ys)) \<Longrightarrow> q \<in> set (xs @ a # ys) \<Longrightarrow> K a = K q \<Longrightarrow> q = a"
  for K :: "nat \<Rightarrow> 'a :: linorder"
  by (force simp add: sorted_wrt_append)

lemma sorted_sub_left: "sorted_wrt (<) (map K (xs @ a # ys)) \<Longrightarrow> sorted_wrt (<) (map K xs)"
  by (simp add: sorted_wrt_append)

lemma sorted_sub_right: "sorted_wrt (<) (map K (xs @ a # ys)) \<Longrightarrow> sorted_wrt (<) (map K ys)"
  by (simp add: sorted_wrt_append)

lemma agree_kof [simp]: "agree f (kof f)"
  by (simp add: agree_def)

lemma kok_unres [simp]: "kok f K (Key q None) \<longleftrightarrow> isnode f q"
  by (simp add: kok_def)

lemma fresh_eq:
  "Lf f s off = Some \<lparr>lkeys = ks, lchildren = cs\<rparr> \<Longrightarrow>
   fresh f s off = TreeNode (Block (blk f TheTree s)) (map (\<lambda>q. Key q None) ks)
                    (map (\<lambda>(q, off'). Child q off' None) cs) False"
  by (simp add: fresh_def)

lemma get_loop_finds:
  assumes "rep (Lf f) s off t" "\<forall>q \<in> set (inorder t). isnode f q"
    "sorted_wrt (<) (map (skey (kof f)) (inorder t))" "q \<in> set (inorder t)" "kof f q = k" "height t \<le> fuel"
  shows "finds f (get_loop fuel k (fresh f s off)) (blk f TheBatch q)"
  using assms
proof (induction t arbitrary: s off fuel)
  case (L1 a)
  then obtain fuel' where fuel: "fuel = Suc fuel'" by (cases fuel) auto
  from L1 have L: "Lf f s off = Some \<lparr>lkeys = [a], lchildren = []\<rparr>" by simp
  have ld: "loaded f (blk f TheTree s)" using Lf_isnode[OF L] by (rule loaded_blk)
  from L1 have qa: "q = a" "isnode f a" by auto
  show ?case
    unfolding fuel fresh_eq[OF L]
    apply simp
    apply (rule finds_bind[OF bsearch1[OF ld agree_kof]])
     apply (simp add: qa)
    using qa L1.prems(5) finds_getBlock[OF qa(2)] apply auto
    done
next
  case (L2 a b)
  then obtain fuel' where fuel: "fuel = Suc fuel'" by (cases fuel) auto
  from L2 have L: "Lf f s off = Some \<lparr>lkeys = [a, b], lchildren = []\<rparr>" by simp
  have ld: "loaded f (blk f TheTree s)" using Lf_isnode[OF L] by (rule loaded_blk)
  from L2 have v: "isnode f a" "isnode f b" and lt: "skey (kof f) a < skey (kof f) b" and q: "q = a \<or> q = b" by auto
  show ?case
    unfolding fuel fresh_eq[OF L]
    apply simp
    apply (rule finds_bind[OF bsearch2[OF ld agree_kof]])
      apply (simp add: v)
     apply (simp add: v)
    using q lt L2.prems(5) finds_getBlock[OF v(1)] finds_getBlock[OF v(2)] apply auto
    done
next
  case (B1 l a r)
  then obtain fuel' where fuel: "fuel = Suc fuel'" by (cases fuel) auto
  from B1.prems(1) obtain s1 o1 s2 o2 where
    L: "Lf f s off = Some \<lparr>lkeys = [a], lchildren = [(s1, o1), (s2, o2)]\<rparr>"
    and rl: "rep (Lf f) s1 o1 l" and rr: "rep (Lf f) s2 o2 r" by auto
  have ld: "loaded f (blk f TheTree s)" using Lf_isnode[OF L] by (rule loaded_blk)
  from B1.prems have va: "isnode f a" and vl: "\<forall>q \<in> set (inorder l). isnode f q"
    and vr: "\<forall>q \<in> set (inorder r). isnode f q" by auto
  have srt: "sorted_wrt (<) (map (skey (kof f)) (inorder l @ a # inorder r))" using B1.prems(3) by simp
  have qin: "q \<in> set (inorder l @ a # inorder r)" using B1.prems(4) by simp
  have hl: "height l \<le> fuel'" and hr: "height r \<le> fuel'" using B1.prems(6) fuel by auto
  obtain l1 where L1: "Lf f s1 o1 = Some l1" using rl by (cases l) auto
  obtain l2 where L2: "Lf f s2 o2 = Some l2" using rr by (cases r) auto
  have left: "finds f (get_loop fuel' k (fresh f s1 o1)) (blk f TheBatch q)" if "toString k < skey (kof f) a"
    using B1.IH(1)[OF rl vl sorted_sub_left[OF srt] sorted_mid_left[OF srt qin] B1.prems(5) hl] that B1.prems(5)
    by simp
  have right: "finds f (get_loop fuel' k (fresh f s2 o2)) (blk f TheBatch q)" if "skey (kof f) a < toString k"
    using B1.IH(2)[OF rr vr sorted_sub_right[OF srt] sorted_mid_right[OF srt qin] B1.prems(5) hr] that B1.prems(5)
    by simp
  have eq: "q = a" if "toString k = skey (kof f) a"
    using sorted_mid_eq[OF srt qin] that B1.prems(5) by simp
  show ?case
    unfolding fuel fresh_eq[OF L]
    apply simp
    apply (rule finds_bind[OF bsearch1[OF ld agree_kof]])
     apply (simp add: va)
    apply (clarsimp split del: if_split)
    apply (cases "toString k = skey (kof f) a")
    using eq finds_getBlock[OF va] apply simp
    apply (cases "toString k < skey (kof f) a")
     apply simp
     apply (rule finds_bind[OF succeeds_getChildNode[OF ld _ _ L1]])
       apply simp
      apply simp
     apply (clarsimp simp add: left)
    apply simp
    apply (rule finds_bind[OF succeeds_getChildNode[OF ld _ _ L2]])
      apply simp
     apply simp
    using right apply (clarsimp)
    done
next
  case (B2 l a m b r)
  then obtain fuel' where fuel: "fuel = Suc fuel'" by (cases fuel) auto
  from B2.prems(1) obtain s1 o1 s2 o2 s3 o3 where
    L: "Lf f s off = Some \<lparr>lkeys = [a, b], lchildren = [(s1, o1), (s2, o2), (s3, o3)]\<rparr>"
    and rl: "rep (Lf f) s1 o1 l" and rm: "rep (Lf f) s2 o2 m" and rr: "rep (Lf f) s3 o3 r" by auto
  have ld: "loaded f (blk f TheTree s)" using Lf_isnode[OF L] by (rule loaded_blk)
  from B2.prems have va: "isnode f a" and vb: "isnode f b" and vl: "\<forall>q \<in> set (inorder l). isnode f q"
    and vm: "\<forall>q \<in> set (inorder m). isnode f q"
    and vr: "\<forall>q \<in> set (inorder r). isnode f q" by auto
  have srt: "sorted_wrt (<) (map (skey (kof f)) (inorder l @ a # (inorder m @ b # inorder r)))" using B2.prems(3) by simp
  have srt2: "sorted_wrt (<) (map (skey (kof f)) ((inorder l @ a # inorder m) @ b # inorder r))" using B2.prems(3) by simp
  have srtm: "sorted_wrt (<) (map (skey (kof f)) (inorder m @ b # inorder r))" using sorted_sub_right[OF srt] .
  have srtlm: "sorted_wrt (<) (map (skey (kof f)) (inorder l @ a # inorder m))" using sorted_sub_left[OF srt2] .
  have qin: "q \<in> set (inorder l @ a # (inorder m @ b # inorder r))" using B2.prems(4) by simp
  have qin2: "q \<in> set ((inorder l @ a # inorder m) @ b # inorder r)" using B2.prems(4) by simp
  have ab: "skey (kof f) a < skey (kof f) b" using srt by (auto simp add: sorted_wrt_append)
  have hl: "height l \<le> fuel'" and hm: "height m \<le> fuel'" and hr: "height r \<le> fuel'" using B2.prems(6) fuel by auto
  obtain l1 where L1: "Lf f s1 o1 = Some l1" using rl by (cases l) auto
  obtain l2 where L2: "Lf f s2 o2 = Some l2" using rm by (cases m) auto
  obtain l3 where L3: "Lf f s3 o3 = Some l3" using rr by (cases r) auto
  have left: "finds f (get_loop fuel' k (fresh f s1 o1)) (blk f TheBatch q)" if "toString k < skey (kof f) a"
    using B2.IH(1)[OF rl vl sorted_sub_left[OF srt] sorted_mid_left[OF srt qin] B2.prems(5) hl] that B2.prems(5)
    by simp
  have mid: "finds f (get_loop fuel' k (fresh f s2 o2)) (blk f TheBatch q)" if "skey (kof f) a < toString k" "toString k < skey (kof f) b"
  proof -
    have "skey (kof f) q < skey (kof f) b" "skey (kof f) a < skey (kof f) q" using that B2.prems(5) by simp_all
    then have "q \<in> set (inorder l @ a # inorder m)" using sorted_mid_left[OF srt2 qin2] by blast
    then have "q \<in> set (inorder m)" using sorted_mid_right[OF srtlm] \<open>skey (kof f) a < skey (kof f) q\<close> by blast
    then show ?thesis
      using B2.IH(2)[OF rm vm sorted_sub_right[OF srtlm] _ B2.prems(5) hm] by simp
  qed
  have right: "finds f (get_loop fuel' k (fresh f s3 o3)) (blk f TheBatch q)" if "skey (kof f) b < toString k"
    using B2.IH(3)[OF rr vr sorted_sub_right[OF srt2] sorted_mid_right[OF srt2 qin2] B2.prems(5) hr] that B2.prems(5)
    by simp
  have eqa: "q = a" if "toString k = skey (kof f) a"
    using sorted_mid_eq[OF srt qin] that B2.prems(5) by simp
  have eqb: "q = b" if "toString k = skey (kof f) b"
    using sorted_mid_eq[OF srt2 qin2] that B2.prems(5) by simp
  show ?case
    unfolding fuel fresh_eq[OF L]
    apply simp
    apply (rule finds_bind[OF bsearch2[OF ld agree_kof]])
      apply (simp add: va)
     apply (simp add: vb)
    apply (clarsimp split del: if_split)
    apply (cases "toString k = skey (kof f) b")
    using eqb finds_getBlock[OF vb] apply simp
    apply (cases "skey (kof f) b < toString k")
     apply simp
     apply (rule finds_bind[OF succeeds_getChildNode[OF ld _ _ L3]])
       apply simp
      apply simp
     apply (clarsimp simp add: right)
    apply (cases "toString k = skey (kof f) a")
    using eqa finds_getBlock[OF va] ab apply simp
    apply (cases "toString k < skey (kof f) a")
    using ab apply simp
     apply (rule finds_bind[OF succeeds_getChildNode[OF ld _ _ L1]])
       apply simp
      apply simp
     apply (clarsimp simp add: left)
    apply simp
    apply (rule finds_bind[OF succeeds_getChildNode[OF ld _ _ L2]])
      apply simp
     apply simp
    using mid apply (clarsimp)
    done
qed

section \<open>buildIndex writes the tree it is given\<close>

text \<open>
  \<open>buildIndex\<close> appends the levels of the changed nodes to the index array and leaves
  what the array held before; each level it writes refers to levels written after it or
  to entries of the feed, so that the root at offset 0 leads to the tree in memory once
  the array is the index of the new entry.
\<close>

lemma deflate_lev: "deflate idx = map lev idx"
  by (auto simp add: deflate_def lev_def)

lemma buildChildren_Cons:
  "buildChildren (c # cs) idx seq =
     (case bchild c idx seq of (c', idx1) \<Rightarrow>
        (case buildChildren cs idx1 seq of (r, idx2) \<Rightarrow> (c' # r, idx2)))"
  by (cases c) (auto simp add: bchild_def split: option.splits prod.splits)

lemma buildIndex_eq:
  "buildIndex n idx seq =
     (case buildChildren (children n) (idx @ [([], [])]) seq of
        (cs', idx') \<Rightarrow> (length idx, idx'[length idx := (keys n, cs')]))"
  by (cases n) (simp add: Let_def)

lemma rep_mono: "rep L s off t \<Longrightarrow> extends L L' \<Longrightarrow> rep L' s off t"
proof (induction t arbitrary: s off)
  case (B1 l a r)
  then show ?case by (simp add: extends_def) blast
next
  case (B2 l a m b r)
  then show ?case by (simp add: extends_def) blast
qed (auto simp add: extends_def)

lemma written_refl [simp]: "written L seq idx idx"
  by (simp add: written_def)

lemma written_trans: "written L seq a b \<Longrightarrow> written L seq b c \<Longrightarrow> written L seq a c"
proof -
  assume ab: "written L seq a b" and bc: "written L seq b c"
  have "take (length a) c = take (length a) (take (length b) c)"
    using ab by (simp add: written_def min_def)
  also have "\<dots> = a" using ab bc by (simp add: written_def)
  finally show ?thesis using ab bc by (simp add: written_def)
qed

lemma written_nth: "written L seq a b \<Longrightarrow> i < length a \<Longrightarrow> b ! i = a ! i"
  unfolding written_def by (metis nth_take)

lemma holds_index_earlier:
  assumes "holds_index L' seq lo idx2" "written L seq idx1 idx2"
  shows "holds_index L' seq lo idx1"
  unfolding holds_index_def
proof (intro allI impI)
  fix off assume o: "lo \<le> off \<and> off < length idx1"
  with assms(2) have "off < length idx2" by (simp add: written_def)
  with assms(1) o have "L' seq off = Some (lev (idx2 ! off))" by (simp add: holds_index_def)
  with written_nth[OF assms(2)] o show "L' seq off = Some (lev (idx1 ! off))" by simp
qed

lemma sound_later:
  assumes "sound L seq lo idx1 s off t" "written L seq idx1 idx2"
  shows "sound L seq lo idx2 s off t"
  using assms holds_index_earlier unfolding sound_def by blast

lemma sound_lower:
  assumes "sound L seq lo idx s off t" "lo' \<le> lo"
  shows "sound L seq lo' idx s off t"
proof -
  have h: "holds_index L' seq lo idx" if "holds_index L' seq lo' idx" for L'
    using that assms(2) by (simp add: holds_index_def)
  show ?thesis using assms(1) h unfolding sound_def by blast
qed

lemma sound_update:
  assumes "sound L seq lo idx s off t" "p < lo"
  shows "sound L seq lo (idx[p := x]) s off t"
proof -
  have h: "holds_index L' seq lo idx" if "holds_index L' seq lo (idx[p := x])" for L'
    using that assms(2) by (auto simp add: holds_index_def)
  show ?thesis using assms(1) h unfolding sound_def by blast
qed

lemma sound_rep: "rep L s off t \<Longrightarrow> sound L seq lo idx s off t"
  unfolding sound_def using rep_mono by blast

lemma bchild_sound:
  assumes "builds L seq t" "crep L c t"
  shows "\<exists>c' idx'. bchild c idx seq = (c', idx') \<and> written L seq idx idx' \<and>
           sound L seq (length idx) idx' (cseq c') (coffset c') t"
proof (cases "cvalue c")
  case None
  with assms(2) show ?thesis by (simp add: bchild_def sound_rep)
next
  case (Some n)
  show ?thesis
  proof (cases "changed n")
    case False
    with Some assms(2) show ?thesis by (simp add: bchild_def sound_rep)
  next
    case True
    with Some assms(2) have "mrep L n t" by simp
    with assms(1) obtain idx' where b: "buildIndex n idx seq = (length idx, idx')"
      "written L seq idx idx'" "sound L seq (length idx) idx' seq (length idx) t"
      unfolding builds_def by blast
    with Some True show ?thesis by (simp add: bchild_def)
  qed
qed

lemma builds_leaf1: "builds L seq (L1 a)"
  unfolding builds_def
proof (intro allI impI)
  fix n idx assume "mrep L n (L1 a)"
  then have k: "map kseq (keys n) = [a]" and c: "children n = []" by simp_all
  have b: "buildIndex n idx seq = (length idx, idx @ [(keys n, [])])"
    by (simp add: buildIndex_eq c)
  have "sound L seq (length idx) (idx @ [(keys n, [])]) seq (length idx) (L1 a)"
    unfolding sound_def holds_index_def by (auto simp add: lev_def k)
  with b show "\<exists>idx'. buildIndex n idx seq = (length idx, idx') \<and> length idx < length idx' \<and>
                written L seq idx idx' \<and> sound L seq (length idx) idx' seq (length idx) (L1 a)"
    by (simp add: written_def)
qed

lemma builds_leaf2: "builds L seq (L2 a b)"
  unfolding builds_def
proof (intro allI impI)
  fix n idx assume "mrep L n (L2 a b)"
  then have k: "map kseq (keys n) = [a, b]" and c: "children n = []" by simp_all
  have b: "buildIndex n idx seq = (length idx, idx @ [(keys n, [])])"
    by (simp add: buildIndex_eq c)
  have "sound L seq (length idx) (idx @ [(keys n, [])]) seq (length idx) (L2 a b)"
    unfolding sound_def holds_index_def by (auto simp add: lev_def k)
  with b show "\<exists>idx'. buildIndex n idx seq = (length idx, idx') \<and> length idx < length idx' \<and>
                written L seq idx idx' \<and> sound L seq (length idx) idx' seq (length idx) (L2 a b)"
    by (simp add: written_def)
qed

lemma written_snoc: "written L seq (idx @ [x]) idx1 \<Longrightarrow> written L seq idx (idx1[length idx := y])"
  unfolding written_def by (auto simp add: take_Suc_conv_app_nth dest: arg_cong[where f = "take (length idx)"])

lemma child_final:
  assumes "sound L seq lo idx1 s off t" "written L seq idx1 idx2" "p < lo"
  shows "sound L seq p (idx2[p := x]) s off t"
  using sound_lower[OF sound_update[OF sound_later[OF assms(1,2)] assms(3)]] assms(3) by simp

lemma builds_B1:
  assumes "builds L seq l" "builds L seq r"
  shows "builds L seq (B1 l a r)"
  unfolding builds_def
proof (intro allI impI)
  fix n idx assume "mrep L n (B1 l a r)"
  then obtain c1 c2 where k: "map kseq (keys n) = [a]" and c: "children n = [c1, c2]"
    and r1: "crep L c1 l" and r2: "crep L c2 r" by auto
  let ?idx0 = "idx @ [([] :: Key list, [] :: Child list)]"
  from bchild_sound[OF assms(1) r1, of ?idx0] obtain c1' idx1 where
    b1: "bchild c1 ?idx0 seq = (c1', idx1)" and w1: "written L seq ?idx0 idx1"
    and s1: "sound L seq (length ?idx0) idx1 (cseq c1') (coffset c1') l" by blast
  from bchild_sound[OF assms(2) r2, of idx1] obtain c2' idx2 where
    b2: "bchild c2 idx1 seq = (c2', idx2)" and w2: "written L seq idx1 idx2"
    and s2: "sound L seq (length idx1) idx2 (cseq c2') (coffset c2') r" by blast
  let ?idx' = "idx2[length idx := (keys n, [c1', c2'])]"
  have w02: "written L seq ?idx0 idx2" using written_trans[OF w1 w2] .
  have len: "length idx < length idx2" using w02 by (simp add: written_def)
  have len1: "length idx < length idx1" using w1 by (simp add: written_def)
  have b: "buildIndex n idx seq = (length idx, ?idx')"
    by (simp add: buildIndex_eq c buildChildren_Cons b1 b2)
  have f1: "sound L seq (length idx) ?idx' (cseq c1') (coffset c1') l"
    using child_final[OF s1 w2] by simp
  have f2: "sound L seq (length idx) ?idx' (cseq c2') (coffset c2') r"
    using child_final[OF s2 written_refl len1] by simp
  have "sound L seq (length idx) ?idx' seq (length idx) (B1 l a r)"
    unfolding sound_def
  proof (intro allI impI)
    fix L' assume a: "extends L L' \<and> holds_index L' seq (length idx) ?idx'"
    then have "L' seq (length idx) = Some (lev (?idx' ! length idx))"
      using len by (simp add: holds_index_def)
    then have top: "L' seq (length idx) = Some \<lparr>lkeys = [a], lchildren = [(cseq c1', coffset c1'), (cseq c2', coffset c2')]\<rparr>"
      using len by (simp add: lev_def k)
    from f1 f2 a have "rep L' (cseq c1') (coffset c1') l" "rep L' (cseq c2') (coffset c2') r"
      unfolding sound_def by blast+
    with top show "rep L' seq (length idx) (B1 l a r)" by auto
  qed
  with b len written_snoc[OF w02] show "\<exists>idx'. buildIndex n idx seq = (length idx, idx') \<and> length idx < length idx' \<and>
                written L seq idx idx' \<and> sound L seq (length idx) idx' seq (length idx) (B1 l a r)"
    by auto
qed

lemma builds_B2:
  assumes "builds L seq l" "builds L seq m" "builds L seq r"
  shows "builds L seq (B2 l a m b r)"
  unfolding builds_def
proof (intro allI impI)
  fix n idx assume "mrep L n (B2 l a m b r)"
  then obtain c1 c2 c3 where k: "map kseq (keys n) = [a, b]" and c: "children n = [c1, c2, c3]"
    and r1: "crep L c1 l" and r2: "crep L c2 m" and r3: "crep L c3 r" by auto
  let ?idx0 = "idx @ [([] :: Key list, [] :: Child list)]"
  from bchild_sound[OF assms(1) r1, of ?idx0] obtain c1' idx1 where
    b1: "bchild c1 ?idx0 seq = (c1', idx1)" and w1: "written L seq ?idx0 idx1"
    and s1: "sound L seq (length ?idx0) idx1 (cseq c1') (coffset c1') l" by blast
  from bchild_sound[OF assms(2) r2, of idx1] obtain c2' idx2 where
    b2: "bchild c2 idx1 seq = (c2', idx2)" and w2: "written L seq idx1 idx2"
    and s2: "sound L seq (length idx1) idx2 (cseq c2') (coffset c2') m" by blast
  from bchild_sound[OF assms(3) r3, of idx2] obtain c3' idx3 where
    b3: "bchild c3 idx2 seq = (c3', idx3)" and w3: "written L seq idx2 idx3"
    and s3: "sound L seq (length idx2) idx3 (cseq c3') (coffset c3') r" by blast
  let ?idx' = "idx3[length idx := (keys n, [c1', c2', c3'])]"
  have w13: "written L seq idx1 idx3" using written_trans[OF w2 w3] .
  have w03: "written L seq ?idx0 idx3" using written_trans[OF w1 w13] .
  have len: "length idx < length idx3" using w03 by (simp add: written_def)
  have len1: "length idx < length idx1" using w1 by (simp add: written_def)
  have len2: "length idx < length idx2" using w2 len1 by (simp add: written_def)
  have b: "buildIndex n idx seq = (length idx, ?idx')"
    by (simp add: buildIndex_eq c buildChildren_Cons b1 b2 b3)
  have f1: "sound L seq (length idx) ?idx' (cseq c1') (coffset c1') l"
    using child_final[OF s1 w13] by simp
  have f2: "sound L seq (length idx) ?idx' (cseq c2') (coffset c2') m"
    using child_final[OF s2 w3 len1] by simp
  have f3: "sound L seq (length idx) ?idx' (cseq c3') (coffset c3') r"
    using child_final[OF s3 written_refl len2] by simp
  have "sound L seq (length idx) ?idx' seq (length idx) (B2 l a m b r)"
    unfolding sound_def
  proof (intro allI impI)
    fix L' assume a: "extends L L' \<and> holds_index L' seq (length idx) ?idx'"
    then have "L' seq (length idx) = Some (lev (?idx' ! length idx))"
      using len by (simp add: holds_index_def)
    then have top: "L' seq (length idx) = Some \<lparr>lkeys = [a, b],
        lchildren = [(cseq c1', coffset c1'), (cseq c2', coffset c2'), (cseq c3', coffset c3')]\<rparr>"
      using len by (simp add: lev_def k)
    from f1 f2 f3 a have "rep L' (cseq c1') (coffset c1') l" "rep L' (cseq c2') (coffset c2') m"
      "rep L' (cseq c3') (coffset c3') r"
      unfolding sound_def by blast+
    with top show "rep L' seq (length idx) (B2 l a m b r)" by auto
  qed
  with b len written_snoc[OF w03] show "\<exists>idx'. buildIndex n idx seq = (length idx, idx') \<and> length idx < length idx' \<and>
                written L seq idx idx' \<and> sound L seq (length idx) idx' seq (length idx) (B2 l a m b r)"
    by auto
qed

lemma builds_all: "builds L seq t"
  by (induction t) (simp_all add: builds_leaf1 builds_leaf2 builds_B1 builds_B2)

section \<open>The walk of put\<close>

text \<open>
  The walk is followed on the tree: each frame pushed on the way down can take back a
  changed child or the two halves of a split child (one lemma for each shape of parent
  and each slot), the leaf takes the new key, and the root that results lists the keys
  of the tree with the new one in its place.
\<close>

lemma bindM_assoc: "bindM (bindM m g) h = bindM m (\<lambda>x. bindM (g x) h)"
  by (rule ext) (simp add: bindM_def split: prod.splits sum.splits)

lemma bindM_return [simp]: "bindM (returnM x) g = g x"
  by (rule ext) (simp add: bindM_def returnM_def)

lemma bindM_throw [simp]: "bindM (throwM e) g = throwM e"
  by (rule ext) (simp add: bindM_def throwM_def)

lemma bindM_cong: "(\<And>x. g x = h x) \<Longrightarrow> bindM m g = bindM m h"
  by (rule ext) (simp add: bindM_def split: prod.splits sum.splits)

lemma put_walk_leaf:
  "children node = [] \<Longrightarrow>
   put_walk (Suc fuel) target node stack =
     bindM (insertKey node target None) (\<lambda>(notFull, node2).
        if notFull then returnM (plug stack node2) else propagate node2 stack)"
  by (simp add: put_walk_def)

lemma put_walk_internal:
  "children node \<noteq> [] \<Longrightarrow>
   put_walk (Suc fuel) target node stack =
     bindM (bsearch (kvalue target) (TreeNode (block node) (keys node) (children node) True) 0 (length (keys node)) None)
       (\<lambda>(r, node2).
          case r of
            Found mid \<Rightarrow> returnM (plug stack (setKey node2 mid target))
          | NotFound i \<Rightarrow>
              bindM (getChildNode node2 i) (\<lambda>(ch, node3). put_walk fuel target ch ((node3, i) # stack)))"
  unfolding put_walk_def
  apply (simp add: Let_def bindM_assoc)
  apply (rule bindM_cong)
  apply (auto simp add: bindM_assoc split: found.splits intro!: bindM_cong)
  done

lemma Batch_put_walk:
  "Batch_put fuel key value =
     bindM BTree_getRoot (\<lambda>root.
     bindM feed_length (\<lambda>seq.
       case root of
         None \<Rightarrow> Batch_append \<lparr>nkey = key, nvalue = None, nindex = deflate [([Key seq (Some key)], [])]\<rparr>
       | Some node \<Rightarrow>
           bindM (put_walk fuel (Key seq (Some key)) node []) (\<lambda>root'.
             Batch_append_root root' seq key value)))"
  unfolding Batch_put_def put_walk_def
  apply (rule bindM_cong)
  apply (rule bindM_cong)
  apply (auto simp add: Let_def bindM_assoc split: option.splits intro!: bindM_cong)
  done

lemma ctx_plug:
  assumes "ctx_ok f K stack pre post d H" "mrep (Lf f) n t1" "changed n"
  shows "\<exists>t'. mrep (Lf f) (plug stack n) t' \<and> inorder t' = pre @ inorder t1 @ post \<and>
               (height t1 + d \<le> H \<longrightarrow> height t' \<le> H)"
  using assms unfolding ctx_ok_def by blast

lemma ctx_prop:
  assumes "ctx_ok f K stack pre post d H"
    "split node = (left, Some m, rnode)" "materialize rnode = Some right"
    "mrep (Lf f) left l" "changed left" "mrep (Lf f) right r" "changed right"
    "kvalue m = Some (K (kseq m))"
    "\<forall>q\<in>set pre. skey K q < skey K (kseq m)" "\<forall>q\<in>set post. skey K (kseq m) < skey K q"
    "height l + d \<le> H" "height r + d \<le> H"
  shows "succeeds f (propagate node stack)
            (\<lambda>root. \<exists>t'. mrep (Lf f) root t' \<and> inorder t' = pre @ inorder l @ kseq m # inorder r @ post \<and>
                           height t' \<le> Suc H)"
  using assms unfolding ctx_ok_def by blast

lemma ctx_nil: "ctx_ok f K [] [] [] 0 H"
  unfolding ctx_ok_def
proof (intro conjI allI impI)
  fix n t1 assume "mrep (Lf f) n t1 \<and> changed n"
  then show "\<exists>t'. mrep (Lf f) (plug [] n) t' \<and> inorder t' = [] @ inorder t1 @ [] \<and>
               (height t1 + 0 \<le> H \<longrightarrow> height t' \<le> H)"
    by (intro exI[of _ t1]) simp
next
  fix node left m rnode right l r
  assume a: "split node = (left, Some m, rnode) \<and> materialize rnode = Some right \<and>
          mrep (Lf f) left l \<and> changed left \<and> mrep (Lf f) right r \<and> changed right \<and>
          kvalue m = Some (K (kseq m)) \<and>
          (\<forall>q\<in>set []. skey K q < skey K (kseq m)) \<and> (\<forall>q\<in>set []. skey K (kseq m) < skey K q) \<and>
          height l + 0 \<le> H \<and> height r + 0 \<le> H"
  show "succeeds f (propagate node [])
            (\<lambda>root. \<exists>t'. mrep (Lf f) root t' \<and> inorder t' = [] @ inorder l @ kseq m # inorder r @ [] \<and>
                           height t' \<le> Suc H)"
    using a by (auto intro!: exI[of _ "B1 l (kseq m) r"])
qed

lemma ctx_B1_0:
  assumes c: "ctx_ok f K stack pre post d H"
    and ld: "loaded f b" and ag: "agree f K" and kk: "kok f K ka"
    and r2: "rep (Lf f) s2 o2 r"
    and h: "Suc (height r) + d \<le> H"
  shows "ctx_ok f K ((TreeNode (Block b) [ka] [Child s1 o1 (Some x), Child s2 o2 None] True, 0) # stack)
           pre (kseq ka # inorder r @ post) (Suc d) H"
  unfolding ctx_ok_def
proof (intro conjI allI impI)
  fix n t1 assume a: "mrep (Lf f) n t1 \<and> changed n"
  let ?p = "TreeNode (Block b) [ka] [Child s1 o1 (Some n), Child s2 o2 None] True"
  have "mrep (Lf f) ?p (B1 t1 (kseq ka) r)" using a r2 by simp
  from ctx_plug[OF c this] obtain t' where t: "mrep (Lf f) (plug stack ?p) t'"
    "inorder t' = pre @ inorder (B1 t1 (kseq ka) r) @ post"
    "height (B1 t1 (kseq ka) r) + d \<le> H \<longrightarrow> height t' \<le> H" by auto
  show "\<exists>t'. mrep (Lf f) (plug ((TreeNode (Block b) [ka] [Child s1 o1 (Some x), Child s2 o2 None] True, 0) # stack) n) t' \<and>
            inorder t' = pre @ inorder t1 @ kseq ka # inorder r @ post \<and>
            (height t1 + Suc d \<le> H \<longrightarrow> height t' \<le> H)"
    using t h by (intro exI[of _ t']) (auto simp add: setChild_def)
next
  fix node left m rnode right l r'
  assume a: "split node = (left, Some m, rnode) \<and> materialize rnode = Some right \<and>
          mrep (Lf f) left l \<and> changed left \<and> mrep (Lf f) right r' \<and> changed right \<and>
          kvalue m = Some (K (kseq m)) \<and>
          (\<forall>q\<in>set pre. skey K q < skey K (kseq m)) \<and> (\<forall>q\<in>set (kseq ka # inorder r @ post). skey K (kseq m) < skey K q) \<and>
          height l + Suc d \<le> H \<and> height r' + Suc d \<le> H"
  let ?p = "TreeNode (Block b) [m, res K ka] [Child s1 o1 (Some left), Child 0 0 (Some right), Child s2 o2 None] True"
  have lt: "skey K (kseq m) < skey K (kseq ka)" using a by simp
  have "mrep (Lf f) ?p (B2 l (kseq m) r' (kseq ka) r)" using a r2 by simp
  from ctx_plug[OF c this] obtain t' where t: "mrep (Lf f) (plug stack ?p) t'"
    "inorder t' = pre @ inorder (B2 l (kseq m) r' (kseq ka) r) @ post"
    "height (B2 l (kseq m) r' (kseq ka) r) + d \<le> H \<longrightarrow> height t' \<le> H" by auto
  have fin: "\<exists>t'. mrep (Lf f) (plug stack ?p) t' \<and>
            inorder t' = pre @ inorder l @ kseq m # inorder r' @ kseq ka # inorder r @ post \<and>
            height t' \<le> Suc H"
    using t h a by (intro exI[of _ t']) auto
  show "succeeds f (propagate node ((TreeNode (Block b) [ka] [Child s1 o1 (Some x), Child s2 o2 None] True, 0) # stack))
            (\<lambda>root. \<exists>t'. mrep (Lf f) root t' \<and>
               inorder t' = pre @ inorder l @ kseq m # inorder r' @ kseq ka # inorder r @ post \<and>
               height t' \<le> Suc H)"
    using a
    apply (simp add: setChild_def insertKey_def bindM_assoc)
    apply (rule succeeds_bind[OF bsearch1[OF ld ag kk]])
    using lt fin apply (auto simp add: splice_at_def MAX_CHILDREN_def)
    done
qed

lemma split3_leaf:
  "split (TreeNode bl [k0, k1, k2] [] ch) = (TreeNode bl [k0] [] True, Some k1, RightNode [Some k2] [])"
  by (simp add: split_def Let_def pop_while.simps pop_def)

lemma split3_int:
  "split (TreeNode bl [k0, k1, k2] [c0, c1, c2, c3] ch) =
     (TreeNode bl [k0] [c0, c1] True, Some k1, RightNode [Some k2] [Some c2, Some c3])"
  by (simp add: split_def Let_def pop_while.simps pop_def)

lemma materialize_simp [simp]:
  "materialize (RightNode [Some k2] []) = Some (TreeNode NotABlock [k2] [] True)"
  "materialize (RightNode [Some k2] [Some c2, Some c3]) = Some (TreeNode NotABlock [k2] [c2, c3] True)"
  by (simp_all add: materialize_def)

lemma ctx_B1_1:
  assumes c: "ctx_ok f K stack pre post d H"
    and ld: "loaded f b" and ag: "agree f K" and kk: "kok f K ka"
    and r1: "rep (Lf f) s1 o1 l0"
    and h: "Suc (height l0) + d \<le> H"
  shows "ctx_ok f K ((TreeNode (Block b) [ka] [Child s1 o1 None, Child s2 o2 (Some x)] True, Suc 0) # stack)
           (pre @ inorder l0 @ [kseq ka]) post (Suc d) H"
  unfolding ctx_ok_def
proof (intro conjI allI impI)
  fix n t1 assume a: "mrep (Lf f) n t1 \<and> changed n"
  let ?p = "TreeNode (Block b) [ka] [Child s1 o1 None, Child s2 o2 (Some n)] True"
  have "mrep (Lf f) ?p (B1 l0 (kseq ka) t1)" using a r1 by simp
  from ctx_plug[OF c this] obtain t' where t: "mrep (Lf f) (plug stack ?p) t'"
    "inorder t' = pre @ inorder (B1 l0 (kseq ka) t1) @ post"
    "height (B1 l0 (kseq ka) t1) + d \<le> H \<longrightarrow> height t' \<le> H" by auto
  show "\<exists>t'. mrep (Lf f) (plug ((TreeNode (Block b) [ka] [Child s1 o1 None, Child s2 o2 (Some x)] True, Suc 0) # stack) n) t' \<and>
            inorder t' = (pre @ inorder l0 @ [kseq ka]) @ inorder t1 @ post \<and>
            (height t1 + Suc d \<le> H \<longrightarrow> height t' \<le> H)"
    using t h by (intro exI[of _ t']) (auto simp add: setChild_def)
next
  fix node left m rnode right l r'
  assume a: "split node = (left, Some m, rnode) \<and> materialize rnode = Some right \<and>
          mrep (Lf f) left l \<and> changed left \<and> mrep (Lf f) right r' \<and> changed right \<and>
          kvalue m = Some (K (kseq m)) \<and>
          (\<forall>q\<in>set (pre @ inorder l0 @ [kseq ka]). skey K q < skey K (kseq m)) \<and> (\<forall>q\<in>set post. skey K (kseq m) < skey K q) \<and>
          height l + Suc d \<le> H \<and> height r' + Suc d \<le> H"
  let ?p = "TreeNode (Block b) [res K ka, m] [Child s1 o1 None, Child s2 o2 (Some left), Child 0 0 (Some right)] True"
  have lt: "skey K (kseq ka) < skey K (kseq m)" using a by simp
  have "mrep (Lf f) ?p (B2 l0 (kseq ka) l (kseq m) r')" using a r1 by simp
  from ctx_plug[OF c this] obtain t' where t: "mrep (Lf f) (plug stack ?p) t'"
    "inorder t' = pre @ inorder (B2 l0 (kseq ka) l (kseq m) r') @ post"
    "height (B2 l0 (kseq ka) l (kseq m) r') + d \<le> H \<longrightarrow> height t' \<le> H" by auto
  have fin: "\<exists>t'. mrep (Lf f) (plug stack ?p) t' \<and>
            inorder t' = pre @ inorder l0 @ kseq ka # inorder l @ kseq m # inorder r' @ post \<and>
            height t' \<le> Suc H"
    using t h a by (intro exI[of _ t']) auto
  show "succeeds f (propagate node ((TreeNode (Block b) [ka] [Child s1 o1 None, Child s2 o2 (Some x)] True, Suc 0) # stack))
            (\<lambda>root. \<exists>t'. mrep (Lf f) root t' \<and>
               inorder t' = (pre @ inorder l0 @ [kseq ka]) @ inorder l @ kseq m # inorder r' @ post \<and>
               height t' \<le> Suc H)"
    using a
    apply (simp add: setChild_def insertKey_def bindM_assoc)
    apply (rule succeeds_bind[OF bsearch1[OF ld ag kk]])
    using lt fin apply (auto simp add: splice_at_def MAX_CHILDREN_def)
    done
qed

lemma ctx_B2_0:
  assumes c: "ctx_ok f K stack pre post d H"
    and ld: "loaded f b" and ag: "agree f K" and kk: "kok f K ka" "kok f K kb"
    and r2: "rep (Lf f) s2 o2 m0" and r3: "rep (Lf f) s3 o3 r0"
    and ab: "skey K (kseq ka) < skey K (kseq kb)"
    and postb: "\<forall>q\<in>set post. skey K (kseq kb) < skey K q"
    and h: "Suc (max (height m0) (height r0)) + d \<le> H"
  shows "ctx_ok f K ((TreeNode (Block b) [ka, kb] [Child s1 o1 (Some x), Child s2 o2 None, Child s3 o3 None] True, 0) # stack)
           pre (kseq ka # inorder m0 @ kseq kb # inorder r0 @ post) (Suc d) H"
  unfolding ctx_ok_def
proof (intro conjI allI impI)
  fix n t1 assume a: "mrep (Lf f) n t1 \<and> changed n"
  let ?p = "TreeNode (Block b) [ka, kb] [Child s1 o1 (Some n), Child s2 o2 None, Child s3 o3 None] True"
  have "mrep (Lf f) ?p (B2 t1 (kseq ka) m0 (kseq kb) r0)" using a r2 r3 by simp
  from ctx_plug[OF c this] obtain t' where t: "mrep (Lf f) (plug stack ?p) t'"
    "inorder t' = pre @ inorder (B2 t1 (kseq ka) m0 (kseq kb) r0) @ post"
    "height (B2 t1 (kseq ka) m0 (kseq kb) r0) + d \<le> H \<longrightarrow> height t' \<le> H" by auto
  show "\<exists>t'. mrep (Lf f) (plug ((TreeNode (Block b) [ka, kb] [Child s1 o1 (Some x), Child s2 o2 None, Child s3 o3 None] True, 0) # stack) n) t' \<and>
            inorder t' = pre @ inorder t1 @ kseq ka # inorder m0 @ kseq kb # inorder r0 @ post \<and>
            (height t1 + Suc d \<le> H \<longrightarrow> height t' \<le> H)"
    using t h by (intro exI[of _ t']) (auto simp add: setChild_def)
next
  fix node left m rnode right l r'
  assume a: "split node = (left, Some m, rnode) \<and> materialize rnode = Some right \<and>
          mrep (Lf f) left l \<and> changed left \<and> mrep (Lf f) right r' \<and> changed right \<and>
          kvalue m = Some (K (kseq m)) \<and>
          (\<forall>q\<in>set pre. skey K q < skey K (kseq m)) \<and>
          (\<forall>q\<in>set (kseq ka # inorder m0 @ kseq kb # inorder r0 @ post). skey K (kseq m) < skey K q) \<and>
          height l + Suc d \<le> H \<and> height r' + Suc d \<le> H"
  let ?left = "TreeNode (Block b) [m] [Child s1 o1 (Some left), Child 0 0 (Some right)] True"
  let ?right = "TreeNode NotABlock [res K kb] [Child s2 o2 None, Child s3 o3 None] True"
  let ?p = "TreeNode (Block b) [m, res K ka, res K kb]
              [Child s1 o1 (Some left), Child 0 0 (Some right), Child s2 o2 None, Child s3 o3 None] True"
  have lt: "skey K (kseq m) < skey K (kseq ka)" using a by simp
  have pre_a: "\<forall>q\<in>set pre. skey K q < skey K (kseq (res K ka))" using a lt by auto
  have post_a: "\<forall>q\<in>set post. skey K (kseq (res K ka)) < skey K q" using postb ab by auto
  have ml: "mrep (Lf f) ?left (B1 l (kseq m) r')" using a by simp
  have mr: "mrep (Lf f) ?right (B1 m0 (kseq kb) r0)" using r2 r3 by simp
  have hl: "height (B1 l (kseq m) r') + d \<le> H" using a by auto
  have hr: "height (B1 m0 (kseq kb) r0) + d \<le> H" using h by simp
  have fin: "succeeds f (propagate ?p stack)
     (\<lambda>root. \<exists>t'. mrep (Lf f) root t' \<and>
          inorder t' = pre @ inorder (B1 l (kseq m) r') @ kseq (res K ka) # inorder (B1 m0 (kseq kb) r0) @ post \<and>
          height t' \<le> Suc H)"
    by (rule ctx_prop[OF c split3_int _ ml _ mr _ _ pre_a post_a hl hr]) simp_all
  show "succeeds f (propagate node ((TreeNode (Block b) [ka, kb] [Child s1 o1 (Some x), Child s2 o2 None, Child s3 o3 None] True, 0) # stack))
            (\<lambda>root. \<exists>t'. mrep (Lf f) root t' \<and>
               inorder t' = pre @ inorder l @ kseq m # inorder r' @ kseq ka # inorder m0 @ kseq kb # inorder r0 @ post \<and>
               height t' \<le> Suc H)"
    using a
    apply (simp add: setChild_def insertKey_def bindM_assoc)
    apply (rule succeeds_bind[OF bsearch2[OF ld ag kk]])
    using lt ab fin apply (auto simp add: splice_at_def MAX_CHILDREN_def)
    done
qed

lemma ctx_B2_1:
  assumes c: "ctx_ok f K stack pre post d H"
    and ld: "loaded f b" and ag: "agree f K" and kk: "kok f K ka" "kok f K kb"
    and r1: "rep (Lf f) s1 o1 l0" and r3: "rep (Lf f) s3 o3 r0"
    and h: "Suc (max (height l0) (height r0)) + d \<le> H"
  shows "ctx_ok f K ((TreeNode (Block b) [ka, kb] [Child s1 o1 None, Child s2 o2 (Some x), Child s3 o3 None] True, Suc 0) # stack)
           (pre @ inorder l0 @ [kseq ka]) (kseq kb # inorder r0 @ post) (Suc d) H"
  unfolding ctx_ok_def
proof (intro conjI allI impI)
  fix n t1 assume a: "mrep (Lf f) n t1 \<and> changed n"
  let ?p = "TreeNode (Block b) [ka, kb] [Child s1 o1 None, Child s2 o2 (Some n), Child s3 o3 None] True"
  have "mrep (Lf f) ?p (B2 l0 (kseq ka) t1 (kseq kb) r0)" using a r1 r3 by simp
  from ctx_plug[OF c this] obtain t' where t: "mrep (Lf f) (plug stack ?p) t'"
    "inorder t' = pre @ inorder (B2 l0 (kseq ka) t1 (kseq kb) r0) @ post"
    "height (B2 l0 (kseq ka) t1 (kseq kb) r0) + d \<le> H \<longrightarrow> height t' \<le> H" by auto
  show "\<exists>t'. mrep (Lf f) (plug ((TreeNode (Block b) [ka, kb] [Child s1 o1 None, Child s2 o2 (Some x), Child s3 o3 None] True, Suc 0) # stack) n) t' \<and>
            inorder t' = (pre @ inorder l0 @ [kseq ka]) @ inorder t1 @ kseq kb # inorder r0 @ post \<and>
            (height t1 + Suc d \<le> H \<longrightarrow> height t' \<le> H)"
    using t h by (intro exI[of _ t']) (auto simp add: setChild_def)
next
  fix node left m rnode right l r'
  assume a: "split node = (left, Some m, rnode) \<and> materialize rnode = Some right \<and>
          mrep (Lf f) left l \<and> changed left \<and> mrep (Lf f) right r' \<and> changed right \<and>
          kvalue m = Some (K (kseq m)) \<and>
          (\<forall>q\<in>set (pre @ inorder l0 @ [kseq ka]). skey K q < skey K (kseq m)) \<and>
          (\<forall>q\<in>set (kseq kb # inorder r0 @ post). skey K (kseq m) < skey K q) \<and>
          height l + Suc d \<le> H \<and> height r' + Suc d \<le> H"
  let ?left = "TreeNode (Block b) [res K ka] [Child s1 o1 None, Child s2 o2 (Some left)] True"
  let ?right = "TreeNode NotABlock [res K kb] [Child 0 0 (Some right), Child s3 o3 None] True"
  let ?p = "TreeNode (Block b) [res K ka, m, res K kb]
              [Child s1 o1 None, Child s2 o2 (Some left), Child 0 0 (Some right), Child s3 o3 None] True"
  have lt: "skey K (kseq ka) < skey K (kseq m)" "skey K (kseq m) < skey K (kseq kb)" using a by simp_all
  have pre_a: "\<forall>q\<in>set pre. skey K q < skey K (kseq m)" using a by auto
  have post_a: "\<forall>q\<in>set post. skey K (kseq m) < skey K q" using a by auto
  have ml: "mrep (Lf f) ?left (B1 l0 (kseq ka) l)" using a r1 by simp
  have mr: "mrep (Lf f) ?right (B1 r' (kseq kb) r0)" using a r3 by simp
  have hl: "height (B1 l0 (kseq ka) l) + d \<le> H" using a h by auto
  have hr: "height (B1 r' (kseq kb) r0) + d \<le> H" using a h by auto
  have km: "kvalue m = Some (K (kseq m))" using a by simp
  have fin: "succeeds f (propagate ?p stack)
     (\<lambda>root. \<exists>t'. mrep (Lf f) root t' \<and>
          inorder t' = pre @ inorder (B1 l0 (kseq ka) l) @ kseq m # inorder (B1 r' (kseq kb) r0) @ post \<and>
          height t' \<le> Suc H)"
    by (rule ctx_prop[OF c split3_int _ ml _ mr _ km pre_a post_a hl hr]) simp_all
  show "succeeds f (propagate node ((TreeNode (Block b) [ka, kb] [Child s1 o1 None, Child s2 o2 (Some x), Child s3 o3 None] True, Suc 0) # stack))
            (\<lambda>root. \<exists>t'. mrep (Lf f) root t' \<and>
               inorder t' = (pre @ inorder l0 @ [kseq ka]) @ inorder l @ kseq m # inorder r' @ kseq kb # inorder r0 @ post \<and>
               height t' \<le> Suc H)"
    using a
    apply (simp add: setChild_def insertKey_def bindM_assoc)
    apply (rule succeeds_bind[OF bsearch2[OF ld ag kk]])
    using lt fin apply (auto simp add: splice_at_def MAX_CHILDREN_def)
    done
qed

lemma ctx_B2_2:
  assumes c: "ctx_ok f K stack pre post d H"
    and ld: "loaded f b" and ag: "agree f K" and kk: "kok f K ka" "kok f K kb"
    and r1: "rep (Lf f) s1 o1 l0" and r2: "rep (Lf f) s2 o2 m0"
    and preb: "\<forall>q\<in>set pre. skey K q < skey K (kseq kb)"
    and h: "Suc (max (height l0) (height m0)) + d \<le> H"
  shows "ctx_ok f K ((TreeNode (Block b) [ka, kb] [Child s1 o1 None, Child s2 o2 None, Child s3 o3 (Some x)] True, 2) # stack)
           (pre @ inorder l0 @ kseq ka # inorder m0 @ [kseq kb]) post (Suc d) H"
  unfolding ctx_ok_def
proof (intro conjI allI impI)
  fix n t1 assume a: "mrep (Lf f) n t1 \<and> changed n"
  let ?p = "TreeNode (Block b) [ka, kb] [Child s1 o1 None, Child s2 o2 None, Child s3 o3 (Some n)] True"
  have "mrep (Lf f) ?p (B2 l0 (kseq ka) m0 (kseq kb) t1)" using a r1 r2 by simp
  from ctx_plug[OF c this] obtain t' where t: "mrep (Lf f) (plug stack ?p) t'"
    "inorder t' = pre @ inorder (B2 l0 (kseq ka) m0 (kseq kb) t1) @ post"
    "height (B2 l0 (kseq ka) m0 (kseq kb) t1) + d \<le> H \<longrightarrow> height t' \<le> H" by auto
  show "\<exists>t'. mrep (Lf f) (plug ((TreeNode (Block b) [ka, kb] [Child s1 o1 None, Child s2 o2 None, Child s3 o3 (Some x)] True, 2) # stack) n) t' \<and>
            inorder t' = (pre @ inorder l0 @ kseq ka # inorder m0 @ [kseq kb]) @ inorder t1 @ post \<and>
            (height t1 + Suc d \<le> H \<longrightarrow> height t' \<le> H)"
    using t h by (intro exI[of _ t']) (auto simp add: setChild_def numeral_2_eq_2)
next
  fix node left m rnode right l r'
  assume a: "split node = (left, Some m, rnode) \<and> materialize rnode = Some right \<and>
          mrep (Lf f) left l \<and> changed left \<and> mrep (Lf f) right r' \<and> changed right \<and>
          kvalue m = Some (K (kseq m)) \<and>
          (\<forall>q\<in>set (pre @ inorder l0 @ kseq ka # inorder m0 @ [kseq kb]). skey K q < skey K (kseq m)) \<and>
          (\<forall>q\<in>set post. skey K (kseq m) < skey K q) \<and>
          height l + Suc d \<le> H \<and> height r' + Suc d \<le> H"
  let ?left = "TreeNode (Block b) [ka] [Child s1 o1 None, Child s2 o2 None] True"
  let ?right = "TreeNode NotABlock [m] [Child s3 o3 (Some left), Child 0 0 (Some right)] True"
  let ?p = "TreeNode (Block b) [ka, res K kb, m]
              [Child s1 o1 None, Child s2 o2 None, Child s3 o3 (Some left), Child 0 0 (Some right)] True"
  have lt: "skey K (kseq kb) < skey K (kseq m)" using a by simp
  have pre_a: "\<forall>q\<in>set pre. skey K q < skey K (kseq (res K kb))" using preb by simp
  have post_a: "\<forall>q\<in>set post. skey K (kseq (res K kb)) < skey K q" using a lt by auto
  have ml: "mrep (Lf f) ?left (B1 l0 (kseq ka) m0)" using r1 r2 by simp
  have mr: "mrep (Lf f) ?right (B1 l (kseq m) r')" using a by simp
  have hl: "height (B1 l0 (kseq ka) m0) + d \<le> H" using h by auto
  have hr: "height (B1 l (kseq m) r') + d \<le> H" using a by auto
  have fin: "succeeds f (propagate ?p stack)
     (\<lambda>root. \<exists>t'. mrep (Lf f) root t' \<and>
          inorder t' = pre @ inorder (B1 l0 (kseq ka) m0) @ kseq (res K kb) # inorder (B1 l (kseq m) r') @ post \<and>
          height t' \<le> Suc H)"
    by (rule ctx_prop[OF c split3_int _ ml _ mr _ _ pre_a post_a hl hr]) simp_all
  show "succeeds f (propagate node ((TreeNode (Block b) [ka, kb] [Child s1 o1 None, Child s2 o2 None, Child s3 o3 (Some x)] True, 2) # stack))
            (\<lambda>root. \<exists>t'. mrep (Lf f) root t' \<and>
               inorder t' = (pre @ inorder l0 @ kseq ka # inorder m0 @ [kseq kb]) @ inorder l @ kseq m # inorder r' @ post \<and>
               height t' \<le> Suc H)"
    using a
    apply (simp add: setChild_def insertKey_def bindM_assoc numeral_2_eq_2)
    apply (rule succeeds_bind[OF bsearch2[OF ld ag kk]])
    using lt fin apply (auto simp add: splice_at_def MAX_CHILDREN_def numeral_2_eq_2 numeral_3_eq_3)
    done
qed

lemma plug_inserted:
  assumes "ctx_ok f K stack pre post d H" "mrep (Lf f) n t1" "changed n" "height t1 + d \<le> H"
    "pre @ inorder t1 @ post = A @ nn # B"
    "whole = A @ B \<or> (\<exists>old. whole = A @ old # B \<and> skey K old = toString k)"
    "\<forall>q\<in>set A. skey K q < toString k" "\<forall>q\<in>set B. toString k < skey K q"
  shows "inserted (Lf f) K k nn whole H (plug stack n)"
proof -
  from ctx_plug[OF assms(1,2,3)] assms(4) obtain t' where
    "mrep (Lf f) (plug stack n) t'" "inorder t' = pre @ inorder t1 @ post" "height t' \<le> H" by auto
  with assms(5-8) show ?thesis unfolding inserted_def
    by (intro exI[of _ t'] exI[of _ A] exI[of _ B]) simp
qed

lemma prop_inserted:
  assumes "ctx_ok f K stack pre post d H"
    "split node = (left, Some m, rnode)" "materialize rnode = Some right"
    "mrep (Lf f) left l" "changed left" "mrep (Lf f) right r" "changed right"
    "kvalue m = Some (K (kseq m))"
    "\<forall>q\<in>set pre. skey K q < skey K (kseq m)" "\<forall>q\<in>set post. skey K (kseq m) < skey K q"
    "height l + d \<le> H" "height r + d \<le> H"
    "pre @ inorder l @ kseq m # inorder r @ post = A @ nn # B"
    "whole = A @ B \<or> (\<exists>old. whole = A @ old # B \<and> skey K old = toString k)"
    "\<forall>q\<in>set A. skey K q < toString k" "\<forall>q\<in>set B. toString k < skey K q"
  shows "succeeds f (propagate node stack) (inserted (Lf f) K k nn whole H)"
proof (rule succeeds_weaken[OF ctx_prop[OF assms(1-12)]])
  fix root
  assume "\<exists>t'. mrep (Lf f) root t' \<and> inorder t' = pre @ inorder l @ kseq m # inorder r @ post \<and> height t' \<le> Suc H"
  then obtain t' where "mrep (Lf f) root t'" "inorder t' = pre @ inorder l @ kseq m # inorder r @ post"
    "height t' \<le> Suc H" by blast
  with assms(13-16) show "inserted (Lf f) K k nn whole H root" unfolding inserted_def
    by (intro exI[of _ t'] exI[of _ A] exI[of _ B]) simp
qed

lemma walk_L1:
  assumes w: "wnode f K n (L1 a)" and ag: "agree f K"
    and c: "ctx_ok f K stack pre post d H" and h: "Suc d \<le> H"
    and pre: "\<forall>q\<in>set pre. skey K q < toString k" and post: "\<forall>q\<in>set post. toString k < skey K q" and nn: "K nn = k"
  shows "succeeds f (put_walk (Suc fuel) (Key nn (Some k)) n stack)
           (inserted (Lf f) K k nn (pre @ [a] @ post) H)"
proof -
  from w obtain b ka ch where n: "n = TreeNode (Block b) [ka] [] ch" and ld: "loaded f b"
    and kk: "kok f K ka" and ka: "kseq ka = a" by auto
  have hit: "inserted (Lf f) K k nn (pre @ [a] @ post) H (plug stack (TreeNode (Block b) [Key nn (Some k)] [] True))"
    if "toString k = skey K a"
    by (rule plug_inserted[OF c, where ?t1.0 = "L1 nn" and A = pre and B = post])
       (use that h pre post in auto)
  have lt: "inserted (Lf f) K k nn (pre @ [a] @ post) H (plug stack (TreeNode (Block b) [Key nn (Some k), res K ka] [] True))"
    if "toString k < skey K a"
    by (rule plug_inserted[OF c, where ?t1.0 = "L2 nn a" and A = pre and B = "a # post"])
       (use that h pre post ka in auto)
  have gt: "inserted (Lf f) K k nn (pre @ [a] @ post) H (plug stack (TreeNode (Block b) [res K ka, Key nn (Some k)] [] True))"
    if "skey K a < toString k"
    by (rule plug_inserted[OF c, where ?t1.0 = "L2 a nn" and A = "pre @ [a]" and B = post])
       (use that h pre post ka in auto)
  show ?thesis
    unfolding n
    apply (simp add: put_walk_leaf insertKey_def bindM_assoc)
    apply (rule succeeds_bind[OF bsearch1[OF ld ag kk]])
    using hit lt gt ka apply (auto simp add: splice_at_def MAX_CHILDREN_def setKey_def)
    done
qed

lemma walk_L2:
  assumes w: "wnode f K n (L2 a b')" and ag: "agree f K"
    and c: "ctx_ok f K stack pre post d H" and h: "Suc d \<le> H"
    and srt: "sorted_wrt (<) (map (skey K) (pre @ [a, b'] @ post))"
    and pre: "\<forall>q\<in>set pre. skey K q < toString k" and post: "\<forall>q\<in>set post. toString k < skey K q" and nn: "K nn = k"
  shows "succeeds f (put_walk (Suc fuel) (Key nn (Some k)) n stack)
           (inserted (Lf f) K k nn (pre @ [a, b'] @ post) H)"
proof -
  from w obtain b ka kb ch where n: "n = TreeNode (Block b) [ka, kb] [] ch" and ld: "loaded f b"
    and kk: "kok f K ka" "kok f K kb" and ka: "kseq ka = a" and kb: "kseq kb = b'" by auto
  from srt have ab: "skey K a < skey K b'" and pa: "\<forall>q\<in>set pre. skey K q < skey K a" and pb: "\<forall>q\<in>set pre. skey K q < skey K b'"
    and qa: "\<forall>q\<in>set post. skey K a < skey K q" and qb: "\<forall>q\<in>set post. skey K b' < skey K q"
    by (auto simp add: sorted_wrt_append)
  let ?t = "Key nn (Some k)"
  have hitb: "inserted (Lf f) K k nn (pre @ [a, b'] @ post) H (plug stack (TreeNode (Block b) [ka, ?t] [] True))"
    if "toString k = skey K b'"
    by (rule plug_inserted[OF c, where ?t1.0 = "L2 a nn" and A = "pre @ [a]" and B = post])
       (use that h pre post ka ab in auto)
  have hita: "inserted (Lf f) K k nn (pre @ [a, b'] @ post) H (plug stack (TreeNode (Block b) [?t, res K kb] [] True))"
    if "toString k = skey K a"
    by (rule plug_inserted[OF c, where ?t1.0 = "L2 nn b'" and A = pre and B = "b' # post"])
       (use that h pre post kb ab in auto)
  have gt: "succeeds f (propagate (TreeNode (Block b) [ka, res K kb, ?t] [] True) stack)
              (inserted (Lf f) K k nn (pre @ [a, b'] @ post) H)"
    if "skey K b' < toString k"
    by (rule prop_inserted[OF c split3_leaf, where l = "L1 a" and r = "L1 nn" and A = "pre @ [a, b']" and B = post])
       (use that h pre post ka kb ab pb qb in auto)
  have lt: "succeeds f (propagate (TreeNode (Block b) [?t, res K ka, res K kb] [] True) stack)
              (inserted (Lf f) K k nn (pre @ [a, b'] @ post) H)"
    if "toString k < skey K a"
    by (rule prop_inserted[OF c split3_leaf, where l = "L1 nn" and r = "L1 b'" and A = pre and B = "a # b' # post"])
       (use that h pre post ka kb ab pa qa in auto)
  have mid: "succeeds f (propagate (TreeNode (Block b) [res K ka, ?t, res K kb] [] True) stack)
              (inserted (Lf f) K k nn (pre @ [a, b'] @ post) H)"
    if "skey K a < toString k" "toString k < skey K b'"
    by (rule prop_inserted[OF c split3_leaf, where l = "L1 a" and r = "L1 b'" and A = "pre @ [a]" and B = "b' # post"])
       (use that h pre post ka kb nn in auto)
  let ?Q = "inserted (Lf f) K k nn (pre @ [a, b'] @ post) H"
  let ?cont = "\<lambda>(r, node'). bindM
        (case r of
           Found mid \<Rightarrow> returnM (True, setKey node' mid ?t)
         | NotFound i \<Rightarrow>
             (let ks = splice_at (keys node') i ?t; cs = children node'
              in returnM (length ks < MAX_CHILDREN, TreeNode (block node') ks cs True)))
        (\<lambda>(notFull, node2). if notFull then returnM (plug stack node2) else propagate node2 stack)"
  have step: "succeeds f (?cont x) ?Q"
    if x: "case x of (r, n') \<Rightarrow>
              (if toString k = skey K (kseq kb) then r = Found 1 \<and> n' = TreeNode (Block b) [ka, res K kb] [] ch
               else if skey K (kseq kb) < toString k then r = NotFound 2 \<and> n' = TreeNode (Block b) [ka, res K kb] [] ch
               else if toString k = skey K (kseq ka) then r = Found 0 \<and> n' = TreeNode (Block b) [res K ka, res K kb] [] ch
               else if toString k < skey K (kseq ka) then r = NotFound 0 \<and> n' = TreeNode (Block b) [res K ka, res K kb] [] ch
               else r = NotFound 1 \<and> n' = TreeNode (Block b) [res K ka, res K kb] [] ch)" for x
  proof -
    obtain r n' where xx: "x = (r, n')" by (cases x)
    consider (eb) "toString k = skey K b'" | (gt) "skey K b' < toString k" | (ea) "toString k = skey K a" | (lt) "toString k < skey K a" | (mid) "skey K a < toString k" "toString k < skey K b'"
      by force
    then show ?thesis
    proof cases
      case eb
      with x xx have "r = Found 1" "n' = TreeNode (Block b) [ka, res K kb] [] ch" by (simp_all add: kb)
      with hitb[OF eb] show ?thesis by (simp add: xx setKey_def)
    next
      case gt
      then have "toString k \<noteq> skey K b'" by simp
      with x xx gt have "r = NotFound 2" "n' = TreeNode (Block b) [ka, res K kb] [] ch" by (simp_all add: kb)
      with gt[THEN \<open>skey K b' < toString k \<Longrightarrow> _\<close>] show ?thesis
        by (simp add: xx splice_at_def MAX_CHILDREN_def)
    next
      case ea
      with ab have "toString k \<noteq> skey K b'" "\<not> skey K b' < toString k" by auto
      with x xx ea have "r = Found 0" "n' = TreeNode (Block b) [res K ka, res K kb] [] ch" by (simp_all add: ka kb)
      with hita[OF ea] show ?thesis by (simp add: xx setKey_def)
    next
      case lt
      with ab have "toString k \<noteq> skey K b'" "\<not> skey K b' < toString k" "toString k \<noteq> skey K a" by auto
      with x xx lt have "r = NotFound 0" "n' = TreeNode (Block b) [res K ka, res K kb] [] ch" by (simp_all add: ka kb)
      with lt[THEN \<open>toString k < skey K a \<Longrightarrow> _\<close>] show ?thesis
        by (simp add: xx splice_at_def MAX_CHILDREN_def)
    next
      case mid
      then have "toString k \<noteq> skey K b'" "\<not> skey K b' < toString k" "toString k \<noteq> skey K a" "\<not> toString k < skey K a" by auto
      with x xx have "r = NotFound 1" "n' = TreeNode (Block b) [res K ka, res K kb] [] ch" by (simp_all add: ka kb)
      with \<open>\<lbrakk>skey K a < toString k; toString k < skey K b'\<rbrakk> \<Longrightarrow> _\<close>[OF mid] show ?thesis
        by (simp add: xx splice_at_def MAX_CHILDREN_def)
    qed
  qed
  have eq: "put_walk (Suc fuel) ?t n stack =
      bindM (bsearch (Some k) (TreeNode (Block b) [ka, kb] [] ch) 0 (Suc (Suc 0)) None) ?cont"
    unfolding n
    by (auto simp add: put_walk_leaf insertKey_def bindM_assoc Let_def intro!: bindM_cong split: found.splits)
  show ?thesis
    unfolding eq by (rule succeeds_bind[OF bsearch2[OF ld ag kk]]) (rule step)
qed

lemma rep_Lf_Some: "rep (Lf f) s off t \<Longrightarrow> \<exists>l. Lf f s off = Some l"
  by (cases t) auto

lemma wnode_fresh:
  assumes "rep (Lf f) s off t" "\<forall>q\<in>set (inorder t). isnode f q"
  shows "wnode f K (fresh f s off) t"
proof -
  from rep_Lf_Some[OF assms(1)] obtain l where l: "Lf f s off = Some l" by blast
  have ld: "loaded f (blk f TheTree s)" using Lf_isnode[OF l] by (rule loaded_blk)
  show ?thesis
    using assms ld by (cases t) (auto simp add: fresh_def)
qed

lemma walk_ok:
  assumes "wnode f K n t" "\<forall>q\<in>set (inorder t). isnode f q" "agree f K" "height t \<le> fuel"
    "height t + d \<le> H" "ctx_ok f K stack pre post d H"
    "sorted_wrt (<) (map (skey K) (pre @ inorder t @ post))"
    "\<forall>q\<in>set pre. skey K q < toString k" "\<forall>q\<in>set post. toString k < skey K q" "K nn = k"
  shows "succeeds f (put_walk fuel (Key nn (Some k)) n stack)
           (inserted (Lf f) K k nn (pre @ inorder t @ post) H)"
  using assms
proof (induction t arbitrary: n stack pre post d fuel)
  case (L1 a)
  then obtain fuel' where fuel: "fuel = Suc fuel'" by (cases fuel) auto
  from L1 have h: "Suc d \<le> H" by simp
  show ?case unfolding fuel
    using walk_L1[OF L1.prems(1) L1.prems(3) L1.prems(6) h L1.prems(8,9,10)] by simp
next
  case (L2 a b')
  then obtain fuel' where fuel: "fuel = Suc fuel'" by (cases fuel) auto
  from L2 have h: "Suc d \<le> H" by simp
  have srt: "sorted_wrt (<) (map (skey K) (pre @ [a, b'] @ post))" using L2.prems(7) by simp
  show ?case unfolding fuel
    using walk_L2[OF L2.prems(1) L2.prems(3) L2.prems(6) h srt L2.prems(8,9,10)] by simp
next
  case (B1 l a r)
  then obtain fuel' where fuel: "fuel = Suc fuel'" by (cases fuel) auto
  note ag = B1.prems(3) and c = B1.prems(6) and pre = B1.prems(8) and post = B1.prems(9) and nn = B1.prems(10)
  from B1.prems(1) obtain b ka ch s1 o1 s2 o2 where
    n: "n = TreeNode (Block b) [ka] [Child s1 o1 None, Child s2 o2 None] ch" and ld: "loaded f b"
    and kk: "kok f K ka" and ka: "kseq ka = a"
    and rl: "rep (Lf f) s1 o1 l" and rr: "rep (Lf f) s2 o2 r" by auto
  from B1.prems(2) have vl: "\<forall>q\<in>set (inorder l). isnode f q" and vr: "\<forall>q\<in>set (inorder r). isnode f q" by auto
  from B1.prems(4) fuel have fl: "height l \<le> fuel'" and fr: "height r \<le> fuel'" by auto
  from B1.prems(5) have hl: "height l + Suc d \<le> H" and hr: "height r + Suc d \<le> H"
    and hl': "Suc (height l) + d \<le> H" and hr': "Suc (height r) + d \<le> H" by auto
  have srt: "sorted_wrt (<) (map (skey K) (pre @ inorder l @ a # inorder r @ post))" using B1.prems(7) by simp
  from srt have la: "\<forall>q\<in>set (inorder l). skey K q < skey K a" and ra: "\<forall>q\<in>set (inorder r). skey K a < skey K q"
    and pa: "\<forall>q\<in>set pre. skey K q < skey K a" and qa: "\<forall>q\<in>set post. skey K a < skey K q"
    by (auto simp add: sorted_wrt_append)
  obtain l1 where L1: "Lf f s1 o1 = Some l1" using rep_Lf_Some[OF rl] by blast
  obtain l2 where L2: "Lf f s2 o2 = Some l2" using rep_Lf_Some[OF rr] by blast
  let ?t = "Key nn (Some k)"
  let ?cs = "[Child s1 o1 None, Child s2 o2 None]"
  let ?whole = "pre @ inorder (B1 l a r) @ post"
  let ?Q = "inserted (Lf f) K k nn ?whole H"
  let ?cont = "\<lambda>(r, node2). case r of
            Found mid \<Rightarrow> returnM (plug stack (setKey node2 mid ?t))
          | NotFound i \<Rightarrow>
              bindM (getChildNode node2 i) (\<lambda>(ch, node3). put_walk fuel' ?t ch ((node3, i) # stack))"
  have eq: "put_walk (Suc fuel') ?t n stack =
      bindM (bsearch (Some k) (TreeNode (Block b) [ka] ?cs True) 0 (Suc 0) None) ?cont"
    unfolding n by (simp add: put_walk_internal)
  have hit: "?Q (plug stack (TreeNode (Block b) [?t] ?cs True))" if "toString k = skey K a"
    by (rule plug_inserted[OF c, where ?t1.0 = "B1 l nn r" and A = "pre @ inorder l" and B = "inorder r @ post"])
       (use that B1.prems(5) pre post la ra rl rr in auto)
  have left: "succeeds f (put_walk fuel' ?t (fresh f s1 o1)
                 ((TreeNode (Block b) [res K ka] [Child s1 o1 (Some (fresh f s1 o1)), Child s2 o2 None] True, 0) # stack)) ?Q"
    if "toString k < skey K a"
  proof -
    have cx: "ctx_ok f K ((TreeNode (Block b) [res K ka] [Child s1 o1 (Some (fresh f s1 o1)), Child s2 o2 None] True, 0) # stack)
                pre (kseq (res K ka) # inorder r @ post) (Suc d) H"
      by (rule ctx_B1_0[OF c ld ag kok_res rr hr'])
    have po: "\<forall>q\<in>set (a # inorder r @ post). toString k < skey K q" using that ra post by auto
    have "succeeds f (put_walk fuel' ?t (fresh f s1 o1)
                 ((TreeNode (Block b) [res K ka] [Child s1 o1 (Some (fresh f s1 o1)), Child s2 o2 None] True, 0) # stack))
            (inserted (Lf f) K k nn (pre @ inorder l @ (a # inorder r @ post)) H)"
      by (rule B1.IH(1)[OF wnode_fresh[OF rl vl] vl ag fl hl _ _ pre po nn])
         (use cx ka srt in simp_all)
    then show ?thesis by simp
  qed
  have right: "succeeds f (put_walk fuel' ?t (fresh f s2 o2)
                 ((TreeNode (Block b) [res K ka] [Child s1 o1 None, Child s2 o2 (Some (fresh f s2 o2))] True, Suc 0) # stack)) ?Q"
    if "skey K a < toString k"
  proof -
    have cx: "ctx_ok f K ((TreeNode (Block b) [res K ka] [Child s1 o1 None, Child s2 o2 (Some (fresh f s2 o2))] True, Suc 0) # stack)
                (pre @ inorder l @ [kseq (res K ka)]) post (Suc d) H"
      by (rule ctx_B1_1[OF c ld ag kok_res rl hl'])
    have pr: "\<forall>q\<in>set (pre @ inorder l @ [a]). skey K q < toString k" using that la pre by auto
    have "succeeds f (put_walk fuel' ?t (fresh f s2 o2)
                 ((TreeNode (Block b) [res K ka] [Child s1 o1 None, Child s2 o2 (Some (fresh f s2 o2))] True, Suc 0) # stack))
            (inserted (Lf f) K k nn ((pre @ inorder l @ [a]) @ inorder r @ post) H)"
      by (rule B1.IH(2)[OF wnode_fresh[OF rr vr] vr ag fr hr _ _ pr post nn])
         (use cx ka srt in simp_all)
    then show ?thesis by simp
  qed
  have step: "succeeds f (?cont x) ?Q"
    if x: "case x of (r, n') \<Rightarrow> n' = TreeNode (Block b) [res K ka] ?cs True \<and>
              r = (if toString k = skey K (kseq ka) then Found 0
                   else if toString k < skey K (kseq ka) then NotFound 0 else NotFound 1)" for x
  proof -
    obtain r n' where xx: "x = (r, n')" by (cases x)
    from x xx have n': "n' = TreeNode (Block b) [res K ka] ?cs True" by simp
    consider (eq) "toString k = skey K a" | (lt) "toString k < skey K a" | (gt) "skey K a < toString k" by force
    then show ?thesis
    proof cases
      case eq
      with x xx have "r = Found 0" by (simp add: ka)
      with hit[OF eq] show ?thesis by (simp add: xx n' setKey_def)
    next
      case lt
      with x xx have r: "r = NotFound 0" by (simp add: ka)
      show ?thesis
        unfolding xx r n'
        apply simp
        apply (rule succeeds_bind[OF succeeds_getChildNode[OF ld _ _ L1]])
          apply simp
         apply simp
        using left[OF lt] apply clarsimp
        done
    next
      case gt
      then have "\<not> toString k < skey K a" "toString k \<noteq> skey K a" by auto
      with x xx have r: "r = NotFound 1" by (simp add: ka)
      show ?thesis
        unfolding xx r n'
        apply simp
        apply (rule succeeds_bind[OF succeeds_getChildNode[OF ld _ _ L2]])
          apply simp
         apply simp
        using right[OF gt] apply clarsimp
        done
    qed
  qed
  show ?case
    unfolding fuel eq by (rule succeeds_bind[OF bsearch1[OF ld ag kk]]) (rule step)
next
  case (B2 l a m b' r)
  then obtain fuel' where fuel: "fuel = Suc fuel'" by (cases fuel) auto
  note ag = B2.prems(3) and c = B2.prems(6) and pre = B2.prems(8) and post = B2.prems(9) and nn = B2.prems(10)
  from B2.prems(1) obtain b ka kb ch s1 o1 s2 o2 s3 o3 where
    n: "n = TreeNode (Block b) [ka, kb] [Child s1 o1 None, Child s2 o2 None, Child s3 o3 None] ch"
    and ld: "loaded f b"
    and kk: "kok f K ka" "kok f K kb" and ka: "kseq ka = a" and kb: "kseq kb = b'"
    and rl: "rep (Lf f) s1 o1 l" and rm: "rep (Lf f) s2 o2 m" and rr: "rep (Lf f) s3 o3 r" by auto
  from B2.prems(2) have vl: "\<forall>q\<in>set (inorder l). isnode f q" and vm: "\<forall>q\<in>set (inorder m). isnode f q"
    and vr: "\<forall>q\<in>set (inorder r). isnode f q" by auto
  from B2.prems(4) fuel have fl: "height l \<le> fuel'" and fm: "height m \<le> fuel'" and fr: "height r \<le> fuel'" by auto
  from B2.prems(5) have hl: "height l + Suc d \<le> H" and hm: "height m + Suc d \<le> H" and hr: "height r + Suc d \<le> H"
    and h0: "Suc (max (height m) (height r)) + d \<le> H"
    and h1: "Suc (max (height l) (height r)) + d \<le> H"
    and h2: "Suc (max (height l) (height m)) + d \<le> H" by auto
  have srt: "sorted_wrt (<) (map (skey K) (pre @ inorder l @ a # inorder m @ b' # inorder r @ post))"
    using B2.prems(7) by simp
  from srt have la: "\<forall>q\<in>set (inorder l). skey K q < skey K a" and ma: "\<forall>q\<in>set (inorder m). skey K a < skey K q"
    and mb: "\<forall>q\<in>set (inorder m). skey K q < skey K b'" and rb: "\<forall>q\<in>set (inorder r). skey K b' < skey K q"
    and ab: "skey K a < skey K b'"
    and pa: "\<forall>q\<in>set pre. skey K q < skey K a" and pb: "\<forall>q\<in>set pre. skey K q < skey K b'"
    and qb: "\<forall>q\<in>set post. skey K b' < skey K q"
    by (auto simp add: sorted_wrt_append)
  have lb: "\<forall>q\<in>set (inorder l). skey K q < skey K b'" using la ab by auto
  have ra: "\<forall>q\<in>set (inorder r). skey K a < skey K q" using rb ab by auto
  obtain l1 where L1: "Lf f s1 o1 = Some l1" using rep_Lf_Some[OF rl] by blast
  obtain l2 where L2: "Lf f s2 o2 = Some l2" using rep_Lf_Some[OF rm] by blast
  obtain l3 where L3: "Lf f s3 o3 = Some l3" using rep_Lf_Some[OF rr] by blast
  let ?t = "Key nn (Some k)"
  let ?cs = "[Child s1 o1 None, Child s2 o2 None, Child s3 o3 None]"
  let ?whole = "pre @ inorder (B2 l a m b' r) @ post"
  let ?Q = "inserted (Lf f) K k nn ?whole H"
  let ?cont = "\<lambda>(r, node2). case r of
            Found mid \<Rightarrow> returnM (plug stack (setKey node2 mid ?t))
          | NotFound i \<Rightarrow>
              bindM (getChildNode node2 i) (\<lambda>(ch, node3). put_walk fuel' ?t ch ((node3, i) # stack))"
  have eq: "put_walk (Suc fuel') ?t n stack =
      bindM (bsearch (Some k) (TreeNode (Block b) [ka, kb] ?cs True) 0 (Suc (Suc 0)) None) ?cont"
    unfolding n by (simp add: put_walk_internal)
  have hitb: "?Q (plug stack (TreeNode (Block b) [ka, ?t] ?cs True))" if "toString k = skey K b'"
    by (rule plug_inserted[OF c, where ?t1.0 = "B2 l a m nn r" and A = "pre @ inorder l @ a # inorder m"
          and B = "inorder r @ post"])
       (use that B2.prems(5) pre post lb mb rb ab ka rl rm rr in auto)
  have hita: "?Q (plug stack (TreeNode (Block b) [?t, res K kb] ?cs True))" if "toString k = skey K a"
    by (rule plug_inserted[OF c, where ?t1.0 = "B2 l nn m b' r" and A = "pre @ inorder l"
          and B = "inorder m @ b' # inorder r @ post"])
       (use that B2.prems(5) pre post la ma ra ab kb rl rm rr in auto)
  have left: "succeeds f (put_walk fuel' ?t (fresh f s1 o1)
                 ((TreeNode (Block b) [res K ka, res K kb]
                    [Child s1 o1 (Some (fresh f s1 o1)), Child s2 o2 None, Child s3 o3 None] True, 0) # stack)) ?Q"
    if "toString k < skey K a"
  proof -
    have cx: "ctx_ok f K ((TreeNode (Block b) [res K ka, res K kb]
                    [Child s1 o1 (Some (fresh f s1 o1)), Child s2 o2 None, Child s3 o3 None] True, 0) # stack)
                pre (kseq (res K ka) # inorder m @ kseq (res K kb) # inorder r @ post) (Suc d) H"
      by (rule ctx_B2_0[OF c ld ag kok_res kok_res rm rr _ _ h0]) (use ab qb ka kb in simp_all)
    have po: "\<forall>q\<in>set (a # inorder m @ b' # inorder r @ post). toString k < skey K q" using that ma ra ab post by auto
    have "succeeds f (put_walk fuel' ?t (fresh f s1 o1)
                 ((TreeNode (Block b) [res K ka, res K kb]
                    [Child s1 o1 (Some (fresh f s1 o1)), Child s2 o2 None, Child s3 o3 None] True, 0) # stack))
            (inserted (Lf f) K k nn (pre @ inorder l @ (a # inorder m @ b' # inorder r @ post)) H)"
      by (rule B2.IH(1)[OF wnode_fresh[OF rl vl] vl ag fl hl _ _ pre po nn])
         (use cx ka kb srt in simp_all)
    then show ?thesis by simp
  qed
  have middle: "succeeds f (put_walk fuel' ?t (fresh f s2 o2)
                 ((TreeNode (Block b) [res K ka, res K kb]
                    [Child s1 o1 None, Child s2 o2 (Some (fresh f s2 o2)), Child s3 o3 None] True, Suc 0) # stack)) ?Q"
    if "skey K a < toString k" "toString k < skey K b'"
  proof -
    have cx: "ctx_ok f K ((TreeNode (Block b) [res K ka, res K kb]
                    [Child s1 o1 None, Child s2 o2 (Some (fresh f s2 o2)), Child s3 o3 None] True, Suc 0) # stack)
                (pre @ inorder l @ [kseq (res K ka)]) (kseq (res K kb) # inorder r @ post) (Suc d) H"
      by (rule ctx_B2_1[OF c ld ag kok_res kok_res rl rr h1])
    have pr: "\<forall>q\<in>set (pre @ inorder l @ [a]). skey K q < toString k" using that la pre by auto
    have po: "\<forall>q\<in>set (b' # inorder r @ post). toString k < skey K q" using that rb post by auto
    have "succeeds f (put_walk fuel' ?t (fresh f s2 o2)
                 ((TreeNode (Block b) [res K ka, res K kb]
                    [Child s1 o1 None, Child s2 o2 (Some (fresh f s2 o2)), Child s3 o3 None] True, Suc 0) # stack))
            (inserted (Lf f) K k nn ((pre @ inorder l @ [a]) @ inorder m @ (b' # inorder r @ post)) H)"
      by (rule B2.IH(2)[OF wnode_fresh[OF rm vm] vm ag fm hm _ _ pr po nn])
         (use cx ka kb srt in simp_all)
    then show ?thesis by simp
  qed
  have right: "succeeds f (put_walk fuel' ?t (fresh f s3 o3)
                 ((TreeNode (Block b) [ka, res K kb]
                    [Child s1 o1 None, Child s2 o2 None, Child s3 o3 (Some (fresh f s3 o3))] True, 2) # stack)) ?Q"
    if "skey K b' < toString k"
  proof -
    have cx: "ctx_ok f K ((TreeNode (Block b) [ka, res K kb]
                    [Child s1 o1 None, Child s2 o2 None, Child s3 o3 (Some (fresh f s3 o3))] True, 2) # stack)
                (pre @ inorder l @ kseq ka # inorder m @ [kseq (res K kb)]) post (Suc d) H"
      by (rule ctx_B2_2[OF c ld ag kk(1) kok_res rl rm _ h2]) (use pb kb in simp)
    have pr: "\<forall>q\<in>set (pre @ inorder l @ a # inorder m @ [b']). skey K q < toString k" using that lb mb ab pre by auto
    have "succeeds f (put_walk fuel' ?t (fresh f s3 o3)
                 ((TreeNode (Block b) [ka, res K kb]
                    [Child s1 o1 None, Child s2 o2 None, Child s3 o3 (Some (fresh f s3 o3))] True, 2) # stack))
            (inserted (Lf f) K k nn ((pre @ inorder l @ a # inorder m @ [b']) @ inorder r @ post) H)"
      by (rule B2.IH(3)[OF wnode_fresh[OF rr vr] vr ag fr hr _ _ pr post nn])
         (use cx ka kb srt in simp_all)
    then show ?thesis by simp
  qed
  have step: "succeeds f (?cont x) ?Q"
    if x: "case x of (r, n') \<Rightarrow>
              (if toString k = skey K (kseq kb) then r = Found 1 \<and> n' = TreeNode (Block b) [ka, res K kb] ?cs True
               else if skey K (kseq kb) < toString k then r = NotFound 2 \<and> n' = TreeNode (Block b) [ka, res K kb] ?cs True
               else if toString k = skey K (kseq ka) then r = Found 0 \<and> n' = TreeNode (Block b) [res K ka, res K kb] ?cs True
               else if toString k < skey K (kseq ka) then r = NotFound 0 \<and> n' = TreeNode (Block b) [res K ka, res K kb] ?cs True
               else r = NotFound 1 \<and> n' = TreeNode (Block b) [res K ka, res K kb] ?cs True)" for x
  proof -
    obtain r n' where xx: "x = (r, n')" by (cases x)
    consider (eb) "toString k = skey K b'" | (gt) "skey K b' < toString k" | (ea) "toString k = skey K a" | (lt) "toString k < skey K a" | (mid) "skey K a < toString k" "toString k < skey K b'"
      by force
    then show ?thesis
    proof cases
      case eb
      with x xx have "r = Found 1" "n' = TreeNode (Block b) [ka, res K kb] ?cs True" by (simp_all add: kb)
      with hitb[OF eb] show ?thesis by (simp add: xx setKey_def)
    next
      case gt
      then have "toString k \<noteq> skey K b'" by simp
      with x xx gt have r: "r = NotFound 2" and n': "n' = TreeNode (Block b) [ka, res K kb] ?cs True"
        by (simp_all add: kb)
      show ?thesis
        unfolding xx r n'
        apply simp
        apply (rule succeeds_bind[OF succeeds_getChildNode[OF ld _ _ L3]])
          apply simp
         apply simp
        using right[OF gt] apply (clarsimp simp add: numeral_2_eq_2)
        done
    next
      case ea
      with ab have "toString k \<noteq> skey K b'" "\<not> skey K b' < toString k" by auto
      with x xx ea have "r = Found 0" "n' = TreeNode (Block b) [res K ka, res K kb] ?cs True"
        by (simp_all add: ka kb)
      with hita[OF ea] show ?thesis by (simp add: xx setKey_def)
    next
      case lt
      with ab have "toString k \<noteq> skey K b'" "\<not> skey K b' < toString k" "toString k \<noteq> skey K a" by auto
      with x xx lt have r: "r = NotFound 0" and n': "n' = TreeNode (Block b) [res K ka, res K kb] ?cs True"
        by (simp_all add: ka kb)
      show ?thesis
        unfolding xx r n'
        apply simp
        apply (rule succeeds_bind[OF succeeds_getChildNode[OF ld _ _ L1]])
          apply simp
         apply simp
        using left[OF lt] apply clarsimp
        done
    next
      case mid
      then have "toString k \<noteq> skey K b'" "\<not> skey K b' < toString k" "toString k \<noteq> skey K a" "\<not> toString k < skey K a" by auto
      with x xx have r: "r = NotFound 1" and n': "n' = TreeNode (Block b) [res K ka, res K kb] ?cs True"
        by (simp_all add: ka kb)
      show ?thesis
        unfolding xx r n'
        apply simp
        apply (rule succeeds_bind[OF succeeds_getChildNode[OF ld _ _ L2]])
          apply simp
         apply simp
        using middle[OF mid] apply clarsimp
        done
    qed
  qed
  show ?case
    unfolding fuel eq by (rule succeeds_bind[OF bsearch2[OF ld ag kk]]) (rule step)
qed

section \<open>put keeps the invariant, and get finds what put wrote\<close>

text \<open>
  A \<open>put\<close> on a feed that holds a tree appends one record whose index leads to a tree
  with the same invariant that contains the new entry; \<open>get\<close> then finds it.  The first
  \<open>put\<close> on a new feed writes the header and a one-key leaf.
\<close>

lemma succeeds_then:
  assumes "succeeds f m P" "feed s = f" "\<And>x s'. P x \<Longrightarrow> feed s' = f \<Longrightarrow> blocks s' = blocks s \<Longrightarrow> R (g x s')"
  shows "R (bindM m g s)"
proof -
  from assms(1,2) obtain x s' where "m s = (Inr x, s')" "feed s' = f" "blocks s' = blocks s" "P x"
    unfolding succeeds_def by blast
  with assms(3)[of x s'] show ?thesis by (simp add: bindM_def)
qed

lemma succeeds_feed_length: "succeeds f feed_length (\<lambda>n. n = length f)"
  by (simp add: succeeds_def feed_length_def)

lemma succeeds_getRoot:
  assumes "2 \<le> length f" "Lf f (length f - 1) 0 = Some l"
  shows "succeeds f BTree_getRoot (\<lambda>r. r = Some (fresh f (length f - 1) 0))"
proof -
  have q: "isnode f (length f - Suc 0)" using Lf_isnode[OF assms(2)] by simp
  have fr: "getTreeNode (blk f TheTree (length f - Suc 0)) 0 = Inr (fresh f (length f - Suc 0) 0)"
    using getTreeNode_fresh[OF assms(2), of TheTree] assms(2) by (simp add: fresh_def)
  have rd: "succeeds f ready (\<lambda>_. True)"
    using assms(1) by (auto simp add: succeeds_def ready_def bindM_def feed_length_def returnM_def)
  show ?thesis
    unfolding BTree_getRoot_def
    apply (rule succeeds_bind[OF rd])
    apply (rule succeeds_bind[OF succeeds_feed_length])
    using assms(1) apply simp
    apply (rule succeeds_bind[OF succeeds_getBlock[OF q]])
    apply (simp add: fr liftE_def)
    done
qed

lemma isnode_append: "isnode (f @ [NodeBytes m]) q \<longleftrightarrow> isnode f q \<or> q = length f"
  by (auto simp add: isnode_def nth_append)

lemma msg_append_old: "q < length f \<Longrightarrow> msg (f @ [p]) q = msg f q"
  by (simp add: msg_def nth_append)

lemma msg_append_new [simp]: "msg (f @ [NodeBytes m]) (length f) = m"
  by (simp add: msg_def)

lemma kof_append_old: "isnode f q \<Longrightarrow> kof (f @ [p]) q = kof f q"
  by (simp add: kof_def isnode_def msg_append_old)

lemma extends_append: "extends (Lf f) (Lf (f @ [NodeBytes m]))"
  by (auto simp add: extends_def Lf_def msg_append_old isnode_def nth_append split: if_splits)

lemma append_root_rep:
  assumes "mrep (Lf f) root t" "feed s = f"
  shows "\<exists>m s'. Batch_append_root root (length f) k v s = (Inr (), s') \<and> feed s' = f @ [NodeBytes m] \<and>
           nkey m = k \<and> nvalue m = v \<and> rep (Lf (f @ [NodeBytes m])) (length f) 0 t"
proof -
  from builds_all[of "Lf f" "length f" t] assms(1)
  have "\<exists>idx'. buildIndex root [] (length f) = (length ([] :: (Key list \<times> Child list) list), idx') \<and>
          length ([] :: (Key list \<times> Child list) list) < length idx' \<and>
          written (Lf f) (length f) [] idx' \<and>
          sound (Lf f) (length f) (length ([] :: (Key list \<times> Child list) list)) idx' (length f)
             (length ([] :: (Key list \<times> Child list) list)) t"
    unfolding builds_def by blast
  then obtain idx' where
    b: "buildIndex root [] (length f) = (0, idx')" and len: "0 < length idx'"
    and snd: "sound (Lf f) (length f) 0 idx' (length f) 0 t"
    by auto
  let ?m = "\<lparr>nkey = k, nvalue = v, nindex = deflate idx'\<rparr>"
  have hi: "holds_index (Lf (f @ [NodeBytes ?m])) (length f) 0 idx'"
    by (simp add: holds_index_def Lf_def isnode_append deflate_lev)
  from snd extends_append[of f ?m] hi have "rep (Lf (f @ [NodeBytes ?m])) (length f) 0 t"
    unfolding sound_def by blast
  with b assms(2) show ?thesis
    by (intro exI[of _ ?m]) (simp add: Batch_append_root_def Batch_append_def feed_append_def)
qed

lemma sorted_insert_new:
  fixes K :: "nat \<Rightarrow> 'a :: linorder"
  assumes "sorted_wrt (<) (map K (A @ B))" "\<forall>q\<in>set A. K q < K nn" "\<forall>q\<in>set B. K nn < K q"
  shows "sorted_wrt (<) (map K (A @ nn # B))"
  using assms by (auto simp add: sorted_wrt_append)

lemma sorted_replace:
  fixes K :: "nat \<Rightarrow> 'a :: linorder"
  assumes "sorted_wrt (<) (map K (A @ old # B))" "K old = K nn"
  shows "sorted_wrt (<) (map K (A @ nn # B))"
  using assms by (auto simp add: sorted_wrt_append)

lemma BTree_put_fresh_batch: "BTree_put fuel k v s = Batch_put fuel k v (s\<lparr>blocks := []\<rparr>)"
  by (simp add: BTree_put_def new_Batch_def bindM_def)

lemma BTree_get_fresh_batch: "BTree_get fuel k s = Batch_get fuel k (s\<lparr>blocks := []\<rparr>)"
  by (simp add: BTree_get_def new_Batch_def bindM_def)

lemma put_step:
  assumes inv: "tree_inv f" and fl: "length f \<le> Suc fuel" and fs: "feed s = f"
  shows "\<exists>m s'. BTree_put fuel k v s = (Inr (), s') \<and> feed s' = f @ [NodeBytes m] \<and>
           nkey m = k \<and> nvalue m = v \<and>
           (\<exists>t'. good (f @ [NodeBytes m]) t' \<and> length f \<in> set (inorder t'))"
proof -
  from inv obtain t where len: "2 \<le> length f" and t: "rep (Lf f) (length f - 1) 0 t"
    and valid: "\<forall>q\<in>set (inorder t). isnode f q"
    and srt: "sorted_wrt (<) (map (skey (kof f)) (inorder t))" and ht: "Suc (height t) \<le> length f"
    unfolding tree_inv_def good_def by blast
  define K where "K = (kof f)(length f := k)"
  define nn where "nn = length f"
  define H where "H = length f - 1"
  let ?R = "\<lambda>res. \<exists>m s'. res = (Inr (), s') \<and> feed s' = f @ [NodeBytes m] \<and>
           nkey m = k \<and> nvalue m = v \<and>
           (\<exists>t'. good (f @ [NodeBytes m]) t' \<and> length f \<in> set (inorder t'))"
  have ag: "agree f K" by (simp add: agree_def K_def isnode_def)
  have Knn: "K nn = k" by (simp add: K_def nn_def)
  have Kold: "K q = kof f q" if "isnode f q" for q using that by (simp add: K_def isnode_def)
  have mapK: "map (skey K) (inorder t) = map (skey (kof f)) (inorder t)" using valid Kold by simp
  have srtK: "sorted_wrt (<) (map (skey K) (inorder t))" unfolding mapK by (rule srt)
  obtain l where L: "Lf f (length f - 1) 0 = Some l" using rep_Lf_Some[OF t] by blast
  have walk: "succeeds f (put_walk fuel (Key nn (Some k)) (fresh f (length f - 1) 0) [])
                (inserted (Lf f) K k nn ([] @ inorder t @ []) H)"
    by (rule walk_ok[OF wnode_fresh[OF t valid] valid ag _ _ ctx_nil])
       (use ht fl srtK Knn in \<open>simp_all add: H_def\<close>)
  have fin: "?R (Batch_append_root root nn k v s')"
    if ins: "inserted (Lf f) K k nn ([] @ inorder t @ []) H root" and fs': "feed s' = f" for root s'
  proof -
    from ins obtain t' A B where m: "mrep (Lf f) root t'" and io: "inorder t' = A @ nn # B"
      and wh: "inorder t = A @ B \<or> (\<exists>old. inorder t = A @ old # B \<and> skey K old = toString k)"
      and bA: "\<forall>q\<in>set A. skey K q < toString k" and bB: "\<forall>q\<in>set B. toString k < skey K q" and h': "height t' \<le> Suc H"
      unfolding inserted_def by auto
    from append_root_rep[OF m fs', of k v] obtain msg' s'' where
      ap: "Batch_append_root root (length f) k v s' = (Inr (), s'')" "feed s'' = f @ [NodeBytes msg']"
        "nkey msg' = k" "nvalue msg' = v" "rep (Lf (f @ [NodeBytes msg'])) (length f) 0 t'" by blast
    let ?f' = "f @ [NodeBytes msg']"
    have sub: "set A \<union> set B \<subseteq> set (inorder t)" using wh by auto
    have v': "\<forall>q\<in>set (inorder t'). isnode ?f' q"
      using sub valid io by (auto simp add: isnode_append nn_def)
    have kn: "kof ?f' q = K q" if "q \<in> set (inorder t')" for q
    proof (cases "q = nn")
      case True
      then show ?thesis using ap(3) Knn by (simp add: kof_def nn_def)
    next
      case False
      with that io sub have "q \<in> set (inorder t)" by auto
      with valid have "isnode f q" by simp
      then show ?thesis using Kold kof_append_old by simp
    qed
    have sK: "sorted_wrt (<) (map (skey K) (A @ nn # B))"
    proof -
      from wh show ?thesis
      proof
        assume e: "inorder t = A @ B"
        show ?thesis
          by (rule sorted_insert_new) (use e srtK bA bB Knn in simp_all)
      next
        assume "\<exists>old. inorder t = A @ old # B \<and> skey K old = toString k"
        then obtain old where e: "inorder t = A @ old # B" "skey K old = toString k" by blast
        show ?thesis
          by (rule sorted_replace[where old = old]) (use e srtK Knn in simp_all)
      qed
    qed
    have mk: "map (skey (kof ?f')) (inorder t') = map (skey K) (inorder t')" using kn by simp
    have s': "sorted_wrt (<) (map (skey (kof ?f')) (inorder t'))" using sK mk io by (simp only:)
    have "good ?f' t'"
      unfolding good_def using ap(5) v' s' h' len by (simp add: H_def)
    moreover have "length f \<in> set (inorder t')" using io by (simp add: nn_def)
    ultimately show ?thesis using ap by (auto simp add: nn_def)
  qed
  have "?R (Batch_put fuel k v (s\<lparr>blocks := []\<rparr>))"
    unfolding Batch_put_walk
    apply (rule succeeds_then[OF succeeds_getRoot[OF len L]])
     apply (simp add: fs)
    apply (rule succeeds_then[OF succeeds_feed_length])
     apply assumption
    apply (simp only: option.case)
    apply (rule succeeds_then[OF walk[unfolded nn_def]])
     apply assumption
    apply (rule fin[unfolded nn_def])
     apply assumption
    apply assumption
    done
  then show ?thesis by (simp add: BTree_put_fresh_batch)
qed

lemma get_step:
  assumes "good f t" "2 \<le> length f" "q \<in> set (inorder t)" "height t \<le> fuel" "feed s = f"
  shows "\<exists>s'. BTree_get fuel (kof f q) s = (Inr (Some (blk f TheBatch q)), s')"
proof -
  from assms(1) have t: "rep (Lf f) (length f - 1) 0 t"
    and valid: "\<forall>q\<in>set (inorder t). isnode f q"
    and srt: "sorted_wrt (<) (map (skey (kof f)) (inorder t))"
    unfolding good_def by blast+
  obtain l where L: "Lf f (length f - 1) 0 = Some l" using rep_Lf_Some[OF t] by blast
  have "finds f (Batch_get fuel (kof f q)) (blk f TheBatch q)"
    unfolding Batch_get_def
    apply (rule finds_bind[OF succeeds_getRoot[OF assms(2) L]])
    using get_loop_finds[OF t valid srt assms(3) refl assms(4)] apply simp
    done
  then show ?thesis
    using assms(5) unfolding finds_def BTree_get_fresh_batch
    by (metis (no_types, lifting) state.select_convs(1,3) state.surjective state.update_convs(3))
qed

lemma first_put:
  assumes "feed s = []"
  shows "\<exists>s'. BTree_put fuel k v s = (Inr (), s') \<and>
           feed s' = [HeaderLit, NodeBytes \<lparr>nkey = k, nvalue = None, nindex = [\<lparr>lkeys = [1], lchildren = []\<rparr>]\<rparr>]"
  using assms
  by (simp add: BTree_put_def Batch_put_def new_Batch_def bindM_def feed_length_def Let_def
      BTree_getRoot_def ready_def feed_append_def returnM_def Batch_append_def deflate_def)

lemma good_first:
  "good [HeaderLit, NodeBytes \<lparr>nkey = k, nvalue = None, nindex = [\<lparr>lkeys = [1], lchildren = []\<rparr>]\<rparr>] (L1 1)"
  by (simp add: good_def Lf_def isnode_def msg_def)

lemma put_all_Cons: "put_all fuel ((k, v) # kvs) s = put_all fuel kvs (snd (BTree_put fuel k v s))"
  by (simp add: put_all_def)

lemma put_all_Nil [simp]: "put_all fuel [] s = s"
  by (simp add: put_all_def)

lemma reached_put:
  assumes "reached s j" "j \<le> fuel"
  shows "fst (BTree_put fuel k v s) = Inr () \<and> reached (snd (BTree_put fuel k v s)) (Suc j)"
proof (cases "feed s = []")
  case True
  from first_put[OF True, of fuel k v] obtain s' where
    p: "BTree_put fuel k v s = (Inr (), s')"
       "feed s' = [HeaderLit, NodeBytes \<lparr>nkey = k, nvalue = None, nindex = [\<lparr>lkeys = [1], lchildren = []\<rparr>]\<rparr>]"
    by blast
  have "tree_inv (feed s')" unfolding tree_inv_def p(2) using good_first[of k] by auto
  moreover have "j = 0" using assms(1) True by (auto simp add: reached_def tree_inv_def)
  ultimately show ?thesis using p by (simp add: reached_def)
next
  case False
  with assms(1) have inv: "tree_inv (feed s)" and len: "length (feed s) = Suc j" by (auto simp add: reached_def)
  from put_step[OF inv _ refl, of fuel k v] len assms(2) obtain m s' t' where
    p: "BTree_put fuel k v s = (Inr (), s')" "feed s' = feed s @ [NodeBytes m]"
       "good (feed s @ [NodeBytes m]) t'" by auto
  have "tree_inv (feed s')" unfolding tree_inv_def p(2) using p(3) len by auto
  then show ?thesis using p len by (simp add: reached_def)
qed

lemma reached_put_all:
  assumes "reached s j" "j + length kvs \<le> fuel"
  shows "reached (put_all fuel kvs s) (j + length kvs)"
  using assms
proof (induction kvs arbitrary: s j)
  case Nil
  then show ?case by simp
next
  case (Cons kv kvs)
  obtain k v where kv: "kv = (k, v)" by (cases kv)
  from Cons.prems have j: "j \<le> fuel" and rest: "Suc j + length kvs \<le> fuel" by simp_all
  from reached_put[OF Cons.prems(1) j, of k v] have r: "reached (snd (BTree_put fuel k v s)) (Suc j)" by simp
  from Cons.IH[OF r rest] show ?case by (simp add: kv put_all_Cons)
qed

lemma reached_new: "reached (on_feed []) 0"
  by (simp add: reached_def on_feed_def)

lemma roundtrip:
  assumes "reached s j" "j < fuel"
  shows "\<exists>s' m b s''. BTree_put fuel k v s = (Inr (), s') \<and>
           feed s' = (if feed s = [] then [HeaderLit] else feed s) @ [NodeBytes m] \<and>
           nkey m = k \<and> nvalue m = (if feed s = [] then None else v) \<and>
           BTree_get fuel k s' = (Inr (Some b), s'') \<and> bkey b = k \<and> bvalue b = nvalue m"
proof (cases "feed s = []")
  case True
  let ?m = "\<lparr>nkey = k, nvalue = None, nindex = [\<lparr>lkeys = [1], lchildren = []\<rparr>]\<rparr>"
  let ?f = "[HeaderLit, NodeBytes ?m]"
  from first_put[OF True, of fuel k v] obtain s' where
    p: "BTree_put fuel k v s = (Inr (), s')" "feed s' = ?f" by blast
  have fu: "height (L1 1) \<le> fuel" using assms(2) by simp
  from get_step[OF good_first[of k] _ _ fu p(2), of 1] obtain s'' where
    g: "BTree_get fuel (kof ?f 1) s' = (Inr (Some (blk ?f TheBatch 1)), s'')" by auto
  have "kof ?f 1 = k" by (simp add: kof_def msg_def)
  with g p True show ?thesis
    by (intro exI[of _ s'] exI[of _ ?m] exI[of _ "blk ?f TheBatch 1"] exI[of _ s''])
       (simp add: blk_def msg_def)
next
  case False
  with assms(1) have inv: "tree_inv (feed s)" and len: "length (feed s) = Suc j" by (auto simp add: reached_def)
  from put_step[OF inv _ refl, of fuel k v] len assms(2) obtain m s' t' where
    p: "BTree_put fuel k v s = (Inr (), s')" "feed s' = feed s @ [NodeBytes m]"
       "nkey m = k" "nvalue m = v"
       "good (feed s @ [NodeBytes m]) t'" "length (feed s) \<in> set (inorder t')" by auto
  let ?f = "feed s @ [NodeBytes m]"
  have h: "height t' \<le> fuel" using p(5) len assms(2) by (simp add: good_def)
  have l2: "2 \<le> length ?f" using len by simp
  from get_step[OF p(5) l2 p(6) h p(2)] obtain s'' where
    g: "BTree_get fuel (kof ?f (length (feed s))) s' = (Inr (Some (blk ?f TheBatch (length (feed s)))), s'')" by auto
  have "kof ?f (length (feed s)) = k" using p(3) by (simp add: kof_def)
  with g p False show ?thesis
    by (intro exI[of _ s'] exI[of _ m] exI[of _ "blk ?f TheBatch (length (feed s))"] exI[of _ s''])
       (simp add: blk_def)
qed

section \<open>The order of the keys\<close>

text \<open>
  On keys that are ASCII text the string that \<open>cmp\<close> compares is the list of the bytes,
  so there \<open>cmp\<close> is the order of the bytes.  It is not on other keys.  A byte that is
  ill-formed UTF-8 decodes to U+FFFD, so two different keys can compare equal, and then
  the second \<open>put\<close> takes the place of the first key in the tree.  A code point above
  U+FFFF is a surrogate pair, which is below the code units from U+E000 on, though its
  bytes are above theirs.
\<close>

lemma utf8_ascii: "\<forall>b\<in>set bs. 0 \<le> b \<and> b < 0x80 \<Longrightarrow> utf8 0 0 0x80 0xBF bs = bs"
  by (induction bs) simp_all

lemma utf16_ascii: "\<forall>b\<in>set bs. b < 0x80 \<Longrightarrow> concat (map utf16 bs) = bs"
  by (induction bs) (simp_all add: utf16_def)

lemma of_char_nonneg: "0 \<le> (of_char c :: int)"
  by (metis of_nat_of_char of_nat_0_le_iff)

lemma toString_ascii:
  assumes "\<forall>c\<in>set key. (of_char c :: int) < 0x80"
  shows "toString key = map of_char key"
proof -
  have "utf8 0 0 0x80 0xBF (map of_char key) = map of_char key"
    by (rule utf8_ascii) (use assms of_char_nonneg in auto)
  moreover have "concat (map utf16 (map of_char key)) = map of_char key"
    by (rule utf16_ascii) (use assms in auto)
  ultimately show ?thesis
    unfolding toString_def by (simp only:)
qed

lemma of_char_int_less: "(of_char x :: int) < of_char y \<longleftrightarrow> x < y"
proof -
  have "(of_char x :: int) = int (of_char x)" "(of_char y :: int) = int (of_char y)"
    by (simp_all only: of_nat_of_char)
  then show ?thesis by (simp add: less_char_def)
qed

lemma map_of_char_less: "map of_char a < (map of_char b :: int list) \<longleftrightarrow> a < b"
proof (induction a arbitrary: b)
  case Nil
  then show ?case by (cases b) simp_all
next
  case (Cons x xs)
  then show ?case by (cases b) (simp_all add: of_char_int_less)
qed

lemma cmp_ascii:
  assumes "\<forall>c\<in>set a. (of_char c :: int) < 0x80" "\<forall>c\<in>set b. (of_char c :: int) < 0x80"
  shows "cmp a b = (if a < b then - 1 else if b < a then 1 else 0)"
  unfolding cmp_def toString_ascii[OF assms(1)] toString_ascii[OF assms(2)] map_of_char_less ..

lemma cmp_ill_formed: "cmp [CHR 0x80] [CHR 0x81] = 0"
  by code_simp

lemma cmp_surrogates: "cmp [CHR 0xF0, CHR 0x90, CHR 0x80, CHR 0x80] [CHR 0xEF, CHR 0xBD, CHR 0xA1] = - 1"
  by code_simp

lemma put_ill_formed:
  "root_index (feed (put_all 2 [([CHR 0x80], None), ([CHR 0x81], None)] (on_feed []))) =
     [\<lparr>lkeys = [2], lchildren = []\<rparr>]"
  by code_simp

section \<open>The header\<close>

text \<open>What \<open>ready\<close> does to any feed, and \<open>get\<close> on a feed that has never been opened.\<close>

lemma ready_feed:
  "ready s = (Inr (), if 1 < length (feed s) then s else s\<lparr>feed := feed s @ [HeaderLit]\<rparr>)"
  by (simp add: ready_def bindM_def feed_length_def returnM_def feed_append_def)

lemma get_on_new_feed:
  "BTree_get fuel k (on_feed []) = (Inr None, \<lparr>feed = [HeaderLit], reads = [], blocks = []\<rparr>)"
  by (simp add: BTree_get_def new_Batch_def Batch_get_def BTree_getRoot_def ready_def bindM_def
      feed_length_def returnM_def feed_append_def on_feed_def)

section \<open>The claims\<close>

text \<open>
  C1.  After \<open>put(k, v)\<close>, \<open>get(k)\<close> returns a block whose key is \<open>k\<close> and whose value is
  \<open>v\<close>, in particular for the first put into an empty tree.  The code at that input: the
  first put on a new feed appends a record without the value (the branch for a missing
  root passes only \<open>key\<close> and \<open>index\<close> to \<open>append\<close>), so \<open>put("b", "B")\<close> followed by
  \<open>get("b")\<close> returns the block of entry 1 with key \<open>"b"\<close> and no value.
\<close>

theorem first_put_drops_value:
  "fst (BTree_get 1 ''b'' (snd (BTree_put 1 ''b'' (Some ''B'') (on_feed [])))) =
     Inr (Some \<lparr>bseq = 1, btree = TheBatch, indexBuffer = [\<lparr>lkeys = [1], lchildren = []\<rparr>],
                 bkey = ''b'', bvalue = None\<rparr>)"
  by code_simp

text \<open>
  C2.  The scan yields the keys ever put in strictly increasing order, each once and with
  its latest value.  The code at the input of C1: after \<open>put("b", "B")\<close> on a new feed the
  scan yields one block, with key \<open>"b"\<close> and no value.
\<close>

theorem scan_misses_first_value:
  "fst (createReadStream 4 (snd (BTree_put 1 ''b'' (Some ''B'') (on_feed [])))) =
     Inr [\<lparr>bseq = 1, btree = TheTree, indexBuffer = [\<lparr>lkeys = [1], lchildren = []\<rparr>],
            bkey = ''b'', bvalue = None\<rparr>]"
  by code_simp

text \<open>
  C3.  As stated (every successful put makes the feed one entry longer) the claim fails on
  a feed that has never been opened: \<open>put\<close> goes through \<open>getRoot\<close>, which calls \<open>ready\<close>,
  which appends the header, so the feed grows from 0 to 2 entries.
\<close>

theorem put_on_new_feed_appends_twice:
  "fst (BTree_put 1 ''b'' (Some ''B'') (on_feed [])) = Inr () \<and>
   length (feed (on_feed [])) = 0 \<and>
   length (feed (snd (BTree_put 1 ''b'' (Some ''B'') (on_feed [])))) = 2"
  by code_simp

text \<open>
  C3, amended.  On a feed of at least two entries, a successful \<open>put(k, v)\<close> leaves the feed
  it found with exactly one entry added at its end, a \<open>Node\<close> record with key \<open>k\<close> and value
  \<open>v\<close>, and a \<open>put\<close> that ends with an error leaves the feed as it found it.  On a feed of
  length 0 \<open>put\<close> succeeds and leaves two entries, the header and the record for \<open>k\<close>.
\<close>

theorem put_appends_once:
  "(2 \<le> length (feed s) \<longrightarrow>
      (case BTree_put fuel k v s of
         (Inl e, s') \<Rightarrow> feed s' = feed s
       | (Inr u, s') \<Rightarrow> (\<exists>msg. feed s' = feed s @ [NodeBytes msg] \<and> nkey msg = k \<and> nvalue msg = v)))
   \<and> (feed s = [] \<longrightarrow>
      (\<exists>msg. fst (BTree_put fuel k v s) = Inr () \<and>
             feed (snd (BTree_put fuel k v s)) = [HeaderLit, NodeBytes msg] \<and> nkey msg = k))"
proof (intro conjI impI)
  assume len: "2 \<le> length (feed s)"
  let ?s0 = "s\<lparr>blocks := []\<rparr>"
  have len0: "2 \<le> length (feed ?s0)" using len by simp
  obtain r s1 where g: "BTree_getRoot ?s0 = (r, s1)" by (cases "BTree_getRoot ?s0")
  from getRoot_nonempty[OF len0] g have s1: "feed s1 = feed s" and r: "r \<noteq> Inr None" by simp_all
  show "case BTree_put fuel k v s of
         (Inl e, s') \<Rightarrow> feed s' = feed s
       | (Inr u, s') \<Rightarrow> (\<exists>msg. feed s' = feed s @ [NodeBytes msg] \<and> nkey msg = k \<and> nvalue msg = v)"
  proof (cases r)
    case (Inl e)
    with g s1 show ?thesis
      by (simp add: BTree_put_def Batch_put_def new_Batch_def bindM_def)
  next
    case (Inr ro)
    with r obtain node where ro: "ro = Some node" by (cases ro) auto
    from Batch_put_on_node[of s1 k v fuel "Key (length (feed s1)) (Some k)" node "length (feed s1)"]
    show ?thesis using g Inr ro s1
      by (auto simp add: BTree_put_def Batch_put_def new_Batch_def bindM_def feed_length_def Let_def one_append_def split: prod.splits sum.splits)
  qed
next
  assume "feed s = []"
  then show "\<exists>msg. fst (BTree_put fuel k v s) = Inr () \<and>
             feed (snd (BTree_put fuel k v s)) = [HeaderLit, NodeBytes msg] \<and> nkey msg = k"
    by (simp add: BTree_put_def Batch_put_def new_Batch_def bindM_def feed_length_def Let_def
        BTree_getRoot_def ready_def feed_append_def returnM_def Batch_append_def)
qed

theorem put_appends_once_witness:
  "2 \<le> length (feed (on_feed [HeaderLit, NodeBytes \<lparr>nkey = ''b'', nvalue = None, nindex = [\<lparr>lkeys = [1], lchildren = []\<rparr>]\<rparr>])) \<and>
   feed (snd (BTree_put 1 ''c'' (Some ''C'')
          (on_feed [HeaderLit, NodeBytes \<lparr>nkey = ''b'', nvalue = None, nindex = [\<lparr>lkeys = [1], lchildren = []\<rparr>]\<rparr>]))) =
     [HeaderLit, NodeBytes \<lparr>nkey = ''b'', nvalue = None, nindex = [\<lparr>lkeys = [1], lchildren = []\<rparr>]\<rparr>,
      NodeBytes \<lparr>nkey = ''c'', nvalue = Some ''C'', nindex = [\<lparr>lkeys = [1, 2], lchildren = []\<rparr>]\<rparr>] \<and>
   feed (on_feed []) = [] \<and>
   feed (snd (BTree_put 1 ''b'' None (on_feed []))) =
     [HeaderLit, NodeBytes \<lparr>nkey = ''b'', nvalue = None, nindex = [\<lparr>lkeys = [1], lchildren = []\<rparr>]\<rparr>]"
proof -
  let ?s = "on_feed [HeaderLit, NodeBytes \<lparr>nkey = ''b'', nvalue = None, nindex = [\<lparr>lkeys = [1], lchildren = []\<rparr>]\<rparr>]"
  have h: "2 \<le> length (feed ?s)" by (simp add: on_feed_def)
  have r: "fst (BTree_put 1 ''c'' (Some ''C'') ?s) = Inr ()" by code_simp
  have i: "nindex (case last (feed (snd (BTree_put 1 ''c'' (Some ''C'') ?s))) of NodeBytes m \<Rightarrow> m) =
           [\<lparr>lkeys = [1, 2], lchildren = []\<rparr>]" by code_simp
  from put_appends_once[where s = ?s and fuel = 1 and k = "''c''" and v = "Some ''C''"] h r
  obtain msg where m: "feed (snd (BTree_put 1 ''c'' (Some ''C'') ?s)) = feed ?s @ [NodeBytes msg]"
      "nkey msg = ''c''" "nvalue msg = Some ''C''"
    by (cases "BTree_put 1 ''c'' (Some ''C'') ?s") auto
  from i m have "msg = \<lparr>nkey = ''c'', nvalue = Some ''C'', nindex = [\<lparr>lkeys = [1, 2], lchildren = []\<rparr>]\<rparr>"
    by (cases msg) simp
  with m have a: "feed (snd (BTree_put 1 ''c'' (Some ''C'') ?s)) =
     [HeaderLit, NodeBytes \<lparr>nkey = ''b'', nvalue = None, nindex = [\<lparr>lkeys = [1], lchildren = []\<rparr>]\<rparr>,
      NodeBytes \<lparr>nkey = ''c'', nvalue = Some ''C'', nindex = [\<lparr>lkeys = [1, 2], lchildren = []\<rparr>]\<rparr>]"
    by (simp add: on_feed_def)
  have e: "feed (on_feed []) = []" by (simp add: on_feed_def)
  have j: "nindex (case last (feed (snd (BTree_put 1 ''b'' None (on_feed [])))) of NodeBytes m \<Rightarrow> m) = [\<lparr>lkeys = [1], lchildren = []\<rparr>]
           \<and> nvalue (case last (feed (snd (BTree_put 1 ''b'' None (on_feed [])))) of NodeBytes m \<Rightarrow> m) = None"
    by code_simp
  from put_appends_once[where s = "on_feed []" and fuel = 1 and k = "''b''" and v = None] e
  obtain msg' where m': "feed (snd (BTree_put 1 ''b'' None (on_feed []))) = [HeaderLit, NodeBytes msg']"
      "nkey msg' = ''b''"
    by auto
  from j m' have "msg' = \<lparr>nkey = ''b'', nvalue = None, nindex = [\<lparr>lkeys = [1], lchildren = []\<rparr>]\<rparr>"
    by (cases msg') simp
  with m' have b: "feed (snd (BTree_put 1 ''b'' None (on_feed []))) =
     [HeaderLit, NodeBytes \<lparr>nkey = ''b'', nvalue = None, nindex = [\<lparr>lkeys = [1], lchildren = []\<rparr>]\<rparr>]"
    by simp
  from h a e b show ?thesis by blast
qed

text \<open>
  C4.  \<open>ready\<close> appends the header if and only if the feed is empty, and leaves a feed that
  has its header unchanged.  The code at a feed that holds the header alone: the test is
  \<open>feed.length > 1\<close>, so \<open>ready\<close> appends a second header.
\<close>

theorem ready_appends_second_header:
  "ready (on_feed [HeaderLit]) = (Inr (), \<lparr>feed = [HeaderLit, HeaderLit], reads = [], blocks = []\<rparr>)"
  by code_simp

text \<open>
  C5.  Within one operation no entry of the feed is read twice.  The code at
  \<open>get("b")\<close> on the feed that \<open>put("b")\<close> leaves: \<open>getRoot\<close> loads entry 1 through
  \<open>BTree.getBlock\<close>, past the cache of the batch, and the block returned for the key found
  is loaded through \<open>Batch.getBlock\<close>, whose cache is empty; entry 1 is read twice.
\<close>

theorem get_reads_entry_twice:
  "reads (snd (BTree_get 1 ''b''
      (on_feed [HeaderLit, NodeBytes \<lparr>nkey = ''b'', nvalue = None, nindex = [\<lparr>lkeys = [1], lchildren = []\<rparr>]\<rparr>]))) = [1, 1]"
  by code_simp

text \<open>
  C6.  As stated (after \<open>put a, b, c\<close> the leaf holds three keys, and it splits on the fourth
  put) the claim fails: after the third put the root is not a leaf of three keys.
\<close>

theorem third_put_splits:
  "\<not> (length (lkeys (hd (root_index (feed (put_all 4
          [(''a'', Some ''1''), (''b'', Some ''2''), (''c'', Some ''3'')] (on_feed [])))))) = 3 \<and>
      lchildren (hd (root_index (feed (put_all 4
          [(''a'', Some ''1''), (''b'', Some ''2''), (''c'', Some ''3'')] (on_feed []))))) = [])"
  by code_simp

text \<open>
  C6, amended.  Starting from an empty tree, after \<open>put a, b\<close> the root is a leaf with the
  two keys of entries 1 and 2; the third put splits it (\<open>MAX_CHILDREN = 3\<close>: a node is
  split as soon as an insert leaves it with three keys), leaving a root with the key of
  entry 2 and the two leaves \<open>[a]\<close> and \<open>[c]\<close>; the fourth put splits nothing and adds \<open>d\<close> to
  the right leaf.
\<close>

theorem splits_abcd:
  "root_index (feed (put_all 4 [(''a'', Some ''1''), (''b'', Some ''2'')] (on_feed []))) =
     [\<lparr>lkeys = [1, 2], lchildren = []\<rparr>] \<and>
   root_index (feed (put_all 4 [(''a'', Some ''1''), (''b'', Some ''2''), (''c'', Some ''3'')] (on_feed []))) =
     [\<lparr>lkeys = [2], lchildren = [(3, 1), (3, 2)]\<rparr>,
      \<lparr>lkeys = [1], lchildren = []\<rparr>, \<lparr>lkeys = [3], lchildren = []\<rparr>] \<and>
   root_index (feed (put_all 4 [(''a'', Some ''1''), (''b'', Some ''2''), (''c'', Some ''3''),
                                (''d'', Some ''4'')] (on_feed []))) =
     [\<lparr>lkeys = [2], lchildren = [(3, 1), (4, 1)]\<rparr>, \<lparr>lkeys = [3, 4], lchildren = []\<rparr>]"
  by code_simp

text \<open>
  C7.  On an empty tree, also right after \<open>ready\<close>, \<open>get\<close> returns \<open>null\<close> and the feed still
  has length 1.  The code on the feed that \<open>ready\<close> leaves (the header alone): \<open>get\<close> calls
  \<open>ready\<close> again, which appends a second header (see C4), and the feed has length 2.
\<close>

theorem get_after_ready_appends_header:
  "feed (snd (BTree_get 1 ''a'' (snd (ready (on_feed []))))) = [HeaderLit, HeaderLit]"
  by code_simp

text \<open>
  C8.  The scan of an empty tree emits nothing and ends cleanly.  The code on a new feed:
  \<open>open\<close> reads \<open>node.children\<close> of the \<open>null\<close> that \<open>getRoot\<close> returned, and the stream is
  destroyed with that error.
\<close>

theorem scan_of_empty_tree_fails:
  "fst (createReadStream (Suc fuel) (on_feed [])) = Inl TypeError"
  by (simp add: createReadStream_def BTree_getRoot_def ready_def bindM_def feed_length_def
      feed_append_def on_feed_def returnM_def throwM_def)

text \<open>
  C9.  \<open>split\<close> of a node with \<open>n\<close> keys, \<open>h = n div 2\<close>: \<open>right\<close> gets the last \<open>h\<close> keys in
  their order, \<open>median\<close> is the key before them (at index \<open>n - h - 1\<close>), \<open>left\<close> keeps the
  keys before the median; for an internal node \<open>right\<close> gets the last \<open>h + 1\<close> children in
  their order and \<open>left\<close> keeps the others.  A node has at least one key, and an internal
  node at least the \<open>h + 1\<close> children that are moved.
\<close>

theorem split_halves:
  assumes keys_ne: "keys node \<noteq> []"
    and internal: "children node \<noteq> [] \<longrightarrow> length (keys node) div 2 + 1 \<le> length (children node)"
  shows "split node =
     (let h = length (keys node) div 2;
          n = length (keys node);
          c = length (children node)
      in (TreeNode (block node) (take (n - h - 1) (keys node))
            (if children node \<noteq> [] then take (c - (h + 1)) (children node) else []) True,
          Some (keys node ! (n - h - 1)),
          RightNode (map Some (drop (n - h) (keys node)))
            (if children node \<noteq> [] then map Some (drop (c - (h + 1)) (children node)) else [])))"
proof -
  let ?h = "length (keys node) div 2"
  let ?n = "length (keys node)"
  have n: "0 < ?n" using keys_ne by simp
  have lt: "?h < ?n" using n by simp
  have k: "pop_while ?h [] (keys node) =
      (map Some (rev (drop (?n - ?h) (keys node))), take (?n - ?h) (keys node))"
    using pop_while_take_drop[of ?h "[]" "keys node"] by simp
  have pos: "0 < ?n - ?h" using lt by simp
  have ne': "take (?n - ?h) (keys node) \<noteq> []"
  proof
    assume e: "take (?n - ?h) (keys node) = []"
    have "?n - ?h = length (take (?n - ?h) (keys node))" by simp
    also have "\<dots> = 0" unfolding e by simp
    finally have "?n - ?h = 0" .
    with pos show False by linarith
  qed
  have len: "length (take (?n - ?h) (keys node)) = ?n - ?h" by simp
  have la: "last (take (?n - ?h) (keys node)) = keys node ! (?n - ?h - 1)"
    unfolding last_conv_nth[OF ne'] len using pos by simp
  have bl: "butlast (take (?n - ?h) (keys node)) = take (?n - ?h - 1) (keys node)"
    unfolding butlast_conv_take len by (simp add: min_def; arith)
  have p: "pop (take (?n - ?h) (keys node)) = (Some (keys node ! (?n - ?h - 1)), take (?n - ?h - 1) (keys node))"
    using ne' la bl by (simp add: pop_def)
  show ?thesis
  proof (cases "children node = []")
    case True
    then show ?thesis using k p by (simp add: split_def Let_def rev_map)
  next
    case False
    with internal have le: "?h + 1 \<le> length (children node)" by simp
    have c: "pop_while (?h + 1) [] (children node) =
      (map Some (rev (drop (length (children node) - (?h + 1)) (children node))),
       take (length (children node) - (?h + 1)) (children node))"
      using pop_while_take_drop[of "?h + 1" "[]" "children node"] le by simp
    show ?thesis using k p c False by (simp add: split_def Let_def rev_map)
  qed
qed



theorem split_halves_witness:
  "split (TreeNode NotABlock [Key 1 None, Key 2 None, Key 3 None]
            [Child 1 0 None, Child 2 0 None, Child 3 0 None, Child 4 0 None] False) =
   (TreeNode NotABlock [Key 1 None] [Child 1 0 None, Child 2 0 None] True,
    Some (Key 2 None),
    RightNode [Some (Key 3 None)] [Some (Child 3 0 None), Some (Child 4 0 None)])"
  using split_halves[of "TreeNode NotABlock [Key 1 None, Key 2 None, Key 3 None]
            [Child 1 0 None, Child 2 0 None, Child 3 0 None, Child 4 0 None] False"]
  by (simp add: Let_def)

text \<open>
  C10.  As stated (\<open>put(k)\<close> without a value appends exactly one entry) the claim fails on
  a feed that has never been opened, as C3 does: \<open>put\<close> appends the header and then the
  record, two entries.
\<close>

theorem put_without_value_on_new_feed:
  "length (feed (on_feed [])) = 0 \<and>
   feed (snd (BTree_put 1 ''b'' None (on_feed []))) =
     [HeaderLit, NodeBytes \<lparr>nkey = ''b'', nvalue = None, nindex = [\<lparr>lkeys = [1], lchildren = []\<rparr>]\<rparr>]"
  by code_simp

text \<open>
  C10, amended.  In every state that a sequence of puts reaches from a new feed, and with
  fuel for the height of the tree (at most one level per put), \<open>put(k)\<close> without a value
  succeeds and appends exactly one \<open>Node\<close> record, with key \<open>k\<close> and no value, after the
  header when the feed was still empty; \<open>get(k)\<close> then returns a block with key \<open>k\<close> and
  no value.  The keys are any byte strings: where an earlier key compares equal to \<open>k\<close>
  under \<open>cmp\<close>, \<open>put\<close> has put the new entry in its place, and \<open>get\<close> returns the new one.
\<close>

theorem put_without_value_roundtrip:
  assumes "length kvs < fuel"
  shows "fst (BTree_put fuel k None (put_all fuel kvs (on_feed []))) = Inr () \<and>
         (\<exists>m. feed (snd (BTree_put fuel k None (put_all fuel kvs (on_feed [])))) =
                 (if feed (put_all fuel kvs (on_feed [])) = [] then [HeaderLit]
                  else feed (put_all fuel kvs (on_feed []))) @ [NodeBytes m] \<and>
               nkey m = k \<and> nvalue m = None) \<and>
         (\<exists>b. fst (BTree_get fuel k (snd (BTree_put fuel k None (put_all fuel kvs (on_feed []))))) = Inr (Some b) \<and>
               bkey b = k \<and> bvalue b = None)"
proof -
  have r: "reached (put_all fuel kvs (on_feed [])) (0 + length kvs)"
    by (rule reached_put_all[OF reached_new]) (use assms in simp)
  from roundtrip[OF r, of fuel k None] assms show ?thesis by auto
qed

theorem put_without_value_roundtrip_witness:
  "length [(''a'', Some ''1''), ([CHR 0x80], None)] < (3::nat) \<and>
   fst (BTree_put 3 [CHR 0x81] None (put_all 3 [(''a'', Some ''1''), ([CHR 0x80], None)] (on_feed []))) = Inr () \<and>
   (\<exists>b. fst (BTree_get 3 [CHR 0x81]
              (snd (BTree_put 3 [CHR 0x81] None (put_all 3 [(''a'', Some ''1''), ([CHR 0x80], None)] (on_feed []))))) =
           Inr (Some b) \<and>
         bkey b = [CHR 0x81] \<and> bvalue b = None)"
  using put_without_value_roundtrip[of "[(''a'', Some ''1''), ([CHR 0x80], None)]" 3 "[CHR 0x81]"] by simp

end
